theory Spec2Isabelle
  imports Main
begin

section \<open>The two bounded buffers of the simulator\<close>

text \<open>
  The source is \<^verbatim>\<open>src/main.py\<close>: the classes \<^verbatim>\<open>MonitorBuffer\<close> and
  \<^verbatim>\<open>SemaphoreBuffer\<close> and the worker loops of \<^verbatim>\<open>FullSimulatorC\<close>.
  The program is multithreaded, so each method is embedded as a step function on the
  shared object: a thread inside a method is at a program point (named after the source
  line it is about to execute), and one step executes that line atomically. The value of
  \<^verbatim>\<open>stop_event.is_set()\<close> at the moment of the step is an argument of the step.
  A step that cannot be taken now (a blocking \<^verbatim>\<open>with self.lock\<close> while the lock
  is held, or a method that has returned) is \<open>None\<close>.

  Items are of an arbitrary type \<open>'a\<close>; the method result \<^verbatim>\<open>None\<close> of
  \<^verbatim>\<open>consume\<close> is \<open>None\<close> of \<open>'a option\<close>.
\<close>

subsection \<open>Library primitives\<close>

datatype error = ValueError | IndexError | AttributeError

text \<open>
  \<^verbatim>\<open>threading.Semaphore(value)\<close> raises \<^verbatim>\<open>ValueError\<close> for a negative
  initial value. \<^verbatim>\<open>acquire(timeout=0.2)\<close> takes a permit when the counter is not
  zero and reports a timeout (\<open>False\<close>) when it is; \<^verbatim>\<open>release()\<close> adds a permit
  and cannot fail, so the \<^verbatim>\<open>try/except\<close> around it in the source never fires.
\<close>

definition Semaphore_init :: "int \<Rightarrow> error + int" where
  "Semaphore_init v = (if v < 0 then Inl ValueError else Inr v)"

definition acquire :: "int \<Rightarrow> bool \<times> int" where
  "acquire v = (if v = 0 then (False, v) else (True, v - 1))"

definition release :: "int \<Rightarrow> int" where
  "release v = v + 1"

subsection \<open>MonitorBuffer\<close>

record 'a MonitorBuffer =
  mon_capacity :: int
  mon_q :: "'a list"
  mon_lock :: bool

text \<open>\<^verbatim>\<open>MonitorBuffer.__init__\<close>: no check of the capacity; the lock starts free.\<close>

definition MonitorBuffer_init :: "int \<Rightarrow> 'a MonitorBuffer" where
  "MonitorBuffer_init c = \<lparr>mon_capacity = c, mon_q = [], mon_lock = False\<rparr>"

text \<open>
  Program points of \<^verbatim>\<open>produce\<close> (lines 58-65) and \<^verbatim>\<open>consume\<close> (lines 67-74).
  \<open>MP_lock\<close>: entering \<^verbatim>\<open>with self.lock\<close>; \<open>MP_while\<close>: the loop test of line 60;
  \<open>MP_stop\<close>: line 61; \<open>MP_wait\<close>: inside \<^verbatim>\<open>not_full.wait\<close> of line 62, the lock
  given up and to be taken again; \<open>MP_append\<close>: lines 63-65; \<open>MP_return r\<close>: returned
  \<open>r\<close>. The same for \<^verbatim>\<open>consume\<close>; \<open>MC_raise\<close> is the \<^verbatim>\<open>IndexError\<close> that
  \<^verbatim>\<open>self.q.pop(0)\<close> raises on an empty list.
\<close>

datatype 'a mon_pc =
    MP_lock 'a
  | MP_while 'a
  | MP_stop 'a
  | MP_wait 'a
  | MP_append 'a
  | MP_return bool
  | MC_lock
  | MC_while
  | MC_stop
  | MC_wait
  | MC_pop
  | MC_return "'a option"
  | MC_raise error

fun mon_step :: "bool \<Rightarrow> 'a mon_pc \<Rightarrow> 'a MonitorBuffer \<Rightarrow> ('a mon_pc \<times> 'a MonitorBuffer) option" where
  "mon_step stop (MP_lock x) b =
     (if mon_lock b then None else Some (MP_while x, b\<lparr>mon_lock := True\<rparr>))"
| "mon_step stop (MP_while x) b =
     Some (if int (length (mon_q b)) = mon_capacity b then MP_stop x else MP_append x, b)"
| "mon_step stop (MP_stop x) b =
     (if stop then Some (MP_return False, b\<lparr>mon_lock := False\<rparr>)
      else Some (MP_wait x, b\<lparr>mon_lock := False\<rparr>))"
| "mon_step stop (MP_wait x) b =
     (if mon_lock b then None else Some (MP_while x, b\<lparr>mon_lock := True\<rparr>))"
| "mon_step stop (MP_append x) b =
     Some (MP_return True, b\<lparr>mon_q := mon_q b @ [x], mon_lock := False\<rparr>)"
| "mon_step stop (MP_return r) b = None"
| "mon_step stop MC_lock b =
     (if mon_lock b then None else Some (MC_while, b\<lparr>mon_lock := True\<rparr>))"
| "mon_step stop MC_while b =
     Some (if length (mon_q b) = 0 then MC_stop else MC_pop, b)"
| "mon_step stop MC_stop b =
     (if stop then Some (MC_return None, b\<lparr>mon_lock := False\<rparr>)
      else Some (MC_wait, b\<lparr>mon_lock := False\<rparr>))"
| "mon_step stop MC_wait b =
     (if mon_lock b then None else Some (MC_while, b\<lparr>mon_lock := True\<rparr>))"
| "mon_step stop MC_pop b =
     (case mon_q b of
        [] \<Rightarrow> Some (MC_raise IndexError, b\<lparr>mon_lock := False\<rparr>)
      | y # ys \<Rightarrow> Some (MC_return (Some y), b\<lparr>mon_q := ys, mon_lock := False\<rparr>))"
| "mon_step stop (MC_return r) b = None"
| "mon_step stop (MC_raise e) b = None"

subsection \<open>SemaphoreBuffer\<close>

record 'a SemaphoreBuffer =
  sem_capacity :: int
  sem_q :: "'a list"
  sem_empty :: int
  sem_full :: int
  sem_mutex :: int

text \<open>\<^verbatim>\<open>SemaphoreBuffer.__init__\<close>: the only failure is the one of
  \<^verbatim>\<open>threading.Semaphore(capacity)\<close>.\<close>

definition SemaphoreBuffer_init :: "int \<Rightarrow> error + 'a SemaphoreBuffer" where
  "SemaphoreBuffer_init c =
     (case Semaphore_init c of
        Inl e \<Rightarrow> Inl e
      | Inr e \<Rightarrow>
          (case Semaphore_init 0 of
             Inl e' \<Rightarrow> Inl e'
           | Inr f \<Rightarrow>
               (case Semaphore_init 1 of
                  Inl e'' \<Rightarrow> Inl e''
                | Inr m \<Rightarrow>
                    Inr \<lparr>sem_capacity = c, sem_q = [], sem_empty = e, sem_full = f,
                         sem_mutex = m\<rparr>)))"

text \<open>
  Program points of \<^verbatim>\<open>produce\<close> (lines 93-110): \<open>SP_while1\<close> line 94, \<open>SP_empty\<close>
  line 95, \<open>SP_while2\<close> line 99, \<open>SP_mutex\<close> line 100, \<open>SP_cancel\<close> lines 102-104 (the
  compensating release), \<open>SP_append\<close> line 106, \<open>SP_relmutex\<close> line 107, \<open>SP_relfull\<close>
  line 109, \<open>SP_return r\<close> returned \<open>r\<close>. Of \<^verbatim>\<open>consume\<close> (lines 112-131):
  \<open>SC_while1\<close> line 113, \<open>SC_full\<close> line 114, \<open>SC_while2\<close> line 118, \<open>SC_mutex\<close> line
  119, \<open>SC_cancel\<close> lines 121-123, \<open>SC_pop\<close> lines 125-127, \<open>SC_relmutex\<close> line 128,
  \<open>SC_relempty\<close> line 130 (both carrying \<^verbatim>\<open>item\<close>), \<open>SC_return r\<close> returned \<open>r\<close>.
\<close>

datatype 'a sem_pc =
    SP_while1 'a
  | SP_empty 'a
  | SP_while2 'a
  | SP_mutex 'a
  | SP_cancel
  | SP_append 'a
  | SP_relmutex
  | SP_relfull
  | SP_return bool
  | SC_while1
  | SC_full
  | SC_while2
  | SC_mutex
  | SC_cancel
  | SC_pop
  | SC_relmutex "'a option"
  | SC_relempty "'a option"
  | SC_return "'a option"

fun sem_step :: "bool \<Rightarrow> 'a sem_pc \<Rightarrow> 'a SemaphoreBuffer \<Rightarrow> ('a sem_pc \<times> 'a SemaphoreBuffer) option" where
  "sem_step stop (SP_while1 x) b = Some (if stop then SP_return False else SP_empty x, b)"
| "sem_step stop (SP_empty x) b =
     (case acquire (sem_empty b) of
        (ok, v) \<Rightarrow> Some (if ok then SP_while2 x else SP_while1 x, b\<lparr>sem_empty := v\<rparr>))"
| "sem_step stop (SP_while2 x) b = Some (if stop then SP_cancel else SP_mutex x, b)"
| "sem_step stop (SP_mutex x) b =
     (case acquire (sem_mutex b) of
        (ok, v) \<Rightarrow> Some (if ok then SP_append x else SP_while2 x, b\<lparr>sem_mutex := v\<rparr>))"
| "sem_step stop SP_cancel b = Some (SP_return False, b\<lparr>sem_empty := release (sem_empty b)\<rparr>)"
| "sem_step stop (SP_append x) b = Some (SP_relmutex, b\<lparr>sem_q := sem_q b @ [x]\<rparr>)"
| "sem_step stop SP_relmutex b = Some (SP_relfull, b\<lparr>sem_mutex := release (sem_mutex b)\<rparr>)"
| "sem_step stop SP_relfull b = Some (SP_return True, b\<lparr>sem_full := release (sem_full b)\<rparr>)"
| "sem_step stop (SP_return r) b = None"
| "sem_step stop SC_while1 b = Some (if stop then SC_return None else SC_full, b)"
| "sem_step stop SC_full b =
     (case acquire (sem_full b) of
        (ok, v) \<Rightarrow> Some (if ok then SC_while2 else SC_while1, b\<lparr>sem_full := v\<rparr>))"
| "sem_step stop SC_while2 b = Some (if stop then SC_cancel else SC_mutex, b)"
| "sem_step stop SC_mutex b =
     (case acquire (sem_mutex b) of
        (ok, v) \<Rightarrow> Some (if ok then SC_pop else SC_while2, b\<lparr>sem_mutex := v\<rparr>))"
| "sem_step stop SC_cancel b = Some (SC_return None, b\<lparr>sem_full := release (sem_full b)\<rparr>)"
| "sem_step stop SC_pop b =
     (case sem_q b of
        [] \<Rightarrow> Some (SC_relmutex None, b)
      | y # ys \<Rightarrow> Some (SC_relmutex (Some y), b\<lparr>sem_q := ys\<rparr>))"
| "sem_step stop (SC_relmutex r) b = Some (SC_relempty r, b\<lparr>sem_mutex := release (sem_mutex b)\<rparr>)"
| "sem_step stop (SC_relempty r) b = Some (SC_return r, b\<lparr>sem_empty := release (sem_empty b)\<rparr>)"
| "sem_step stop (SC_return r) b = None"


subsection \<open>Calling either buffer\<close>

text \<open>
  \<^verbatim>\<open>self.buffer_model\<close> is an object of either class, and a call dispatches on it.
  A thread is outside the buffer (\<open>Idle\<close>) or at a program point of the class.
\<close>

datatype 'a buffer = Monitor "'a MonitorBuffer" | Semaphore "'a SemaphoreBuffer"

datatype 'a pc = Idle | InMon "'a mon_pc" | InSem "'a sem_pc"

fun produce :: "'a buffer \<Rightarrow> 'a \<Rightarrow> 'a pc" where
  "produce (Monitor b) item = InMon (MP_lock item)"
| "produce (Semaphore b) item = InSem (SP_while1 item)"

fun consume :: "'a buffer \<Rightarrow> 'a pc" where
  "consume (Monitor b) = InMon MC_lock"
| "consume (Semaphore b) = InSem SC_while1"

fun buf_step :: "bool \<Rightarrow> 'a pc \<Rightarrow> 'a buffer \<Rightarrow> ('a pc \<times> 'a buffer) option" where
  "buf_step stop (InMon p) (Monitor b) =
     (case mon_step stop p b of None \<Rightarrow> None | Some (p', b') \<Rightarrow> Some (InMon p', Monitor b'))"
| "buf_step stop (InSem p) (Semaphore b) =
     (case sem_step stop p b of None \<Rightarrow> None | Some (p', b') \<Rightarrow> Some (InSem p', Semaphore b'))"
| "buf_step stop p b = None"

fun buf_q :: "'a buffer \<Rightarrow> 'a list" where
  "buf_q (Monitor b) = mon_q b"
| "buf_q (Semaphore b) = sem_q b"

fun buf_capacity :: "'a buffer \<Rightarrow> int" where
  "buf_capacity (Monitor b) = mon_capacity b"
| "buf_capacity (Semaphore b) = sem_capacity b"

text \<open>What a caller has got from its call: the result of a method that has returned, the
  exception of one that has raised, or nothing yet.\<close>

datatype 'a outcome = PutResult bool | GetResult "'a option" | Raised error | InFlight

fun outcome_of :: "'a pc \<Rightarrow> 'a outcome" where
  "outcome_of (InMon (MP_return r)) = PutResult r"
| "outcome_of (InMon (MC_return r)) = GetResult r"
| "outcome_of (InMon (MC_raise e)) = Raised e"
| "outcome_of (InSem (SP_return r)) = PutResult r"
| "outcome_of (InSem (SC_return r)) = GetResult r"
| "outcome_of p = InFlight"

subsection \<open>One caller alone\<close>

text \<open>
  A call running with no other thread at the buffer: the list gives the value of the stop
  signal at each step of the call, so it is the pattern of stop settings during the call
  and its length is how long the call is watched. A call that has not returned at the end
  of the list is still in flight.
\<close>

fun run :: "bool list \<Rightarrow> 'a pc \<Rightarrow> 'a buffer \<Rightarrow> 'a pc \<times> 'a buffer" where
  "run [] p b = (p, b)"
| "run (s # ss) p b =
     (case buf_step s p b of None \<Rightarrow> (p, b) | Some (p', b') \<Rightarrow> run ss p' b')"

datatype 'a call = Put 'a | Get

fun enter :: "'a buffer \<Rightarrow> 'a call \<Rightarrow> 'a pc" where
  "enter b (Put item) = produce b item"
| "enter b Get = consume b"

definition call_buffer :: "'a call \<Rightarrow> bool list \<Rightarrow> 'a buffer \<Rightarrow> 'a outcome \<times> 'a buffer" where
  "call_buffer c ss b = (case run ss (enter b c) b of (p, b') \<Rightarrow> (outcome_of p, b'))"

text \<open>A sequence of calls by one caller, each with its stop pattern; the caller makes
  the next call when the previous one is over, so the sequence ends at a call that is
  still in flight.\<close>

fun calls :: "('a call \<times> bool list) list \<Rightarrow> 'a buffer \<Rightarrow> 'a outcome list \<times> 'a buffer" where
  "calls [] b = ([], b)"
| "calls ((c, ss) # cs) b =
     (case call_buffer c ss b of
        (InFlight, b') \<Rightarrow> ([InFlight], b')
      | (r, b') \<Rightarrow> (case calls cs b' of (rs, b'') \<Rightarrow> (r # rs, b'')))"

text \<open>The items of the accepted Puts, and the items the Gets returned, in call order.\<close>

fun accepted :: "('a call \<times> bool list) list \<Rightarrow> 'a outcome list \<Rightarrow> 'a list" where
  "accepted ((Put x, ss) # cs) (PutResult True # rs) = x # accepted cs rs"
| "accepted (c # cs) (r # rs) = accepted cs rs"
| "accepted cs rs = []"

fun returned :: "'a outcome list \<Rightarrow> 'a list" where
  "returned (GetResult (Some y) # rs) = y # returned rs"
| "returned (r # rs) = returned rs"
| "returned [] = []"

subsection \<open>Several threads at one buffer\<close>

text \<open>
  Any number of threads share the buffer and the stop signal. An action is a thread
  outside the buffer making a call, a thread inside taking its next step, or the stop
  signal being set or cleared (\<^verbatim>\<open>stop_event.set()\<close>, \<^verbatim>\<open>stop_event.clear()\<close>).
  An action that is not possible in the state leaves it as it is.
\<close>

record 'a system =
  sys_buffer :: "'a buffer"
  sys_stop :: bool
  sys_threads :: "'a pc list"

datatype 'a action = Call nat "'a call" | Step nat | SetStop bool

definition outside :: "'a pc \<Rightarrow> bool" where
  "outside p = (p = Idle \<or> outcome_of p \<noteq> InFlight)"

fun act :: "'a action \<Rightarrow> 'a system \<Rightarrow> 'a system" where
  "act (Call i c) s =
     (if i < length (sys_threads s) \<and> outside (sys_threads s ! i)
      then s\<lparr>sys_threads := (sys_threads s)[i := enter (sys_buffer s) c]\<rparr>
      else s)"
| "act (Step i) s =
     (if i < length (sys_threads s)
      then (case buf_step (sys_stop s) (sys_threads s ! i) (sys_buffer s) of
              None \<Rightarrow> s
            | Some (p', b') \<Rightarrow> s\<lparr>sys_buffer := b', sys_threads := (sys_threads s)[i := p']\<rparr>)
      else s)"
| "act (SetStop v) s = s\<lparr>sys_stop := v\<rparr>"

fun exec :: "'a action list \<Rightarrow> 'a system \<Rightarrow> 'a system" where
  "exec [] s = s"
| "exec (a # as) s = exec as (act a s)"

definition system_init :: "'a buffer \<Rightarrow> nat \<Rightarrow> 'a system" where
  "system_init b n = \<lparr>sys_buffer = b, sys_stop = False, sys_threads = replicate n Idle\<rparr>"

definition quiescent :: "'a system \<Rightarrow> bool" where
  "quiescent s = list_all outside (sys_threads s)"


subsection \<open>What the threads do to the queue, in order\<close>

text \<open>
  What can be seen of a run of several threads, in the order it happens: a thread making a
  call (\<open>Invoke\<close>), the queue \<^verbatim>\<open>self.q\<close> getting longer by an item at its end
  (\<open>Append\<close>) or shorter by the item at its head (\<open>Remove\<close>) in a step of a thread, and a
  call of a thread returning or raising (\<open>Return\<close>). \<open>history\<close> lists the observations of
  a schedule; \<open>appends\<close> and \<open>removes\<close> are the items appended and removed, in order.
\<close>

datatype 'a obs = Invoke nat "'a call" | Append nat 'a | Remove nat 'a | Return nat "'a outcome"

definition q_obs :: "nat \<Rightarrow> 'a list \<Rightarrow> 'a list \<Rightarrow> 'a obs list" where
  "q_obs i q q' =
     (if length q < length q' then [Append i (last q')]
      else if length q' < length q then [Remove i (hd q)]
      else [])"

definition return_obs :: "nat \<Rightarrow> 'a pc \<Rightarrow> 'a obs list" where
  "return_obs i p = (if outcome_of p = InFlight then [] else [Return i (outcome_of p)])"

fun observe :: "'a action \<Rightarrow> 'a system \<Rightarrow> 'a obs list" where
  "observe (Call i c) s =
     (if i < length (sys_threads s) \<and> outside (sys_threads s ! i) then [Invoke i c] else [])"
| "observe (Step i) s =
     (if i < length (sys_threads s)
      then (case buf_step (sys_stop s) (sys_threads s ! i) (sys_buffer s) of
              None \<Rightarrow> []
            | Some (p', b') \<Rightarrow> q_obs i (buf_q (sys_buffer s)) (buf_q b') @ return_obs i p')
      else [])"
| "observe (SetStop v) s = []"

fun history :: "'a action list \<Rightarrow> 'a system \<Rightarrow> 'a obs list" where
  "history [] s = []"
| "history (a # as) s = observe a s @ history as (act a s)"

fun appends :: "'a obs list \<Rightarrow> 'a list" where
  "appends [] = []"
| "appends (Append i x # es) = x # appends es"
| "appends (e # es) = appends es"

fun removes :: "'a obs list \<Rightarrow> 'a list" where
  "removes [] = []"
| "removes (Remove i y # es) = y # removes es"
| "removes (e # es) = removes es"

fun thread_of :: "'a obs \<Rightarrow> nat" where
  "thread_of (Invoke i c) = i"
| "thread_of (Append i x) = i"
| "thread_of (Remove i y) = i"
| "thread_of (Return i r) = i"

definition of_thread :: "nat \<Rightarrow> 'a obs list \<Rightarrow> 'a obs list" where
  "of_thread i es = filter (\<lambda>e. thread_of e = i) es"

text \<open>
  What one thread is seen to do, followed call by call: outside a call; in a call that has
  not changed the queue; or in a call that has changed it and is to return \<open>r\<close>.
  \<open>track\<close> accepts an observation only when it fits: an \<open>Append\<close> only in a Put, once,
  of the item passed to the Put, which then returns True; a \<open>Remove\<close> only in a Get, once,
  which then returns the item removed; a Put that returns False, and a Get that returns
  None or raises, only without having changed the queue. \<open>accounted i\<close> says that all
  observations of thread \<open>i\<close> fit.
\<close>

datatype 'a phase = Out | Before "'a call" | After "'a outcome"

fun track :: "'a phase \<Rightarrow> 'a obs \<Rightarrow> 'a phase option" where
  "track Out (Invoke i c) = Some (Before c)"
| "track (Before (Put x)) (Append i x') = (if x' = x then Some (After (PutResult True)) else None)"
| "track (Before Get) (Remove i y) = Some (After (GetResult (Some y)))"
| "track (Before (Put x)) (Return i r) = (if r = PutResult False then Some Out else None)"
| "track (Before Get) (Return i r) =
     (case r of GetResult None \<Rightarrow> Some Out | Raised e \<Rightarrow> Some Out | _ \<Rightarrow> None)"
| "track (After r) (Return i r') = (if r' = r then Some Out else None)"
| "track ph e = None"

fun tracks :: "'a phase \<Rightarrow> 'a obs list \<Rightarrow> 'a phase option" where
  "tracks ph [] = Some ph"
| "tracks ph (e # es) = (case track ph e of None \<Rightarrow> None | Some ph' \<Rightarrow> tracks ph' es)"

definition accounted :: "nat \<Rightarrow> 'a obs list \<Rightarrow> bool" where
  "accounted i es = (tracks Out (of_thread i es) \<noteq> None)"


section \<open>The session and its workers\<close>

text \<open>
  \<^verbatim>\<open>FullSimulatorC\<close>, without the widgets: the fields the workers and the buttons read
  and write. Items are the labels the producers make. \<open>buffers\<close> are the buffer objects
  the session has made, in the order \<^verbatim>\<open>start\<close> made them, and \<^verbatim>\<open>buffer_model\<close> is the
  one \<^verbatim>\<open>self.buffer_model\<close> refers to, none before the first \<^verbatim>\<open>start\<close>: a worker that
  is inside a method of a buffer stays in that object when \<^verbatim>\<open>start\<close> binds
  \<^verbatim>\<open>self.buffer_model\<close> to a new one. \<open>threads\<close> are all the threads the session has
  started, each with the point of its worker function it is at: \<^verbatim>\<open>start\<close> binds
  \<^verbatim>\<open>self.threads\<close> to a new list (line 358), but nothing joins or ends the threads of the
  old list, so they are still there and run on if they have not seen the stop signal.
\<close>

fun str :: "nat \<Rightarrow> string" where
  "str n = (if n < 10 then [char_of (48 + n)] else str (n div 10) @ [char_of (48 + n mod 10)])"

datatype worker =
    P_loop nat nat
  | P_try nat nat
  | P_produce nat nat nat "string pc"
  | P_load nat nat
  | P_store nat nat int
  | P_peak nat nat
  | C_loop nat
  | C_try nat
  | C_consume nat nat "string pc"
  | C_load nat string
  | C_store nat string int
  | W_stopped
  | W_raised error

text \<open>
  \<open>P_loop pid item_id\<close>: \<^verbatim>\<open>producer_worker\<close> at the loop test of line 395; \<open>P_try\<close>:
  lines 396-402, after the sleep, about to read \<^verbatim>\<open>self.buffer_model\<close> and call its
  \<^verbatim>\<open>produce\<close>; \<open>P_produce pid item_id r p\<close>: inside \<^verbatim>\<open>produce\<close> of the buffer object
  \<open>r\<close>, at \<open>p\<close>; \<open>P_load\<close> and \<open>P_store pid item_id v\<close>: the two halves of
  \<^verbatim>\<open>self.produced_count += 1\<close> (line 406), which reads the counter and then writes the
  value read plus one, \<open>v\<close> being the value read; \<open>P_peak\<close>: line 407 and the rest of the
  loop body. \<open>C_loop cid\<close>: \<^verbatim>\<open>consumer_worker\<close> at line 423; \<open>C_try\<close>: lines 424-428;
  \<open>C_consume cid r p\<close>: inside \<^verbatim>\<open>consume\<close> of the buffer object \<open>r\<close>; \<open>C_load\<close> and
  \<open>C_store cid item v\<close>: the two halves of \<^verbatim>\<open>self.consumed_count += 1\<close> (line 432), with
  the item got. \<open>W_stopped\<close>: past the loop; \<open>W_raised\<close>: ended by an exception.
\<close>

record session =
  capacity :: int
  running :: bool
  stop_event :: bool
  buffers :: "string buffer list"
  buffer_model :: "nat option"
  produced_count :: int
  consumed_count :: int
  peak_buffer :: int
  threads :: "worker list"

definition FullSimulatorC_init :: session where
  "FullSimulatorC_init =
     \<lparr>capacity = 5, running = False, stop_event = False, buffers = [], buffer_model = None,
      produced_count = 0, consumed_count = 0, peak_buffer = 0, threads = []\<rparr>"

text \<open>Line 354: the buffer of the chosen mode.\<close>

definition new_buffer :: "string \<Rightarrow> int \<Rightarrow> error + 'a buffer" where
  "new_buffer mode c =
     (if mode = ''Monitor'' then Inr (Monitor (MonitorBuffer_init c))
      else (case SemaphoreBuffer_init c of Inl e \<Rightarrow> Inl e | Inr b \<Rightarrow> Inr (Semaphore b)))"

text \<open>
  \<^verbatim>\<open>start\<close> (lines 345-366), with the values of the mode box and the two spin boxes.
  It clears the stop signal, makes a new buffer and new workers, and leaves the three
  counters, the old buffer objects and the old threads as they are. An exception of the
  constructor leaves the method after \<^verbatim>\<open>running\<close> and the stop signal were written.
\<close>

definition start :: "string \<Rightarrow> int \<Rightarrow> int \<Rightarrow> session \<Rightarrow> error option \<times> session" where
  "start mode p_count c_count s =
     (if running s then (None, s)
      else (case new_buffer mode (capacity s) of
              Inl e \<Rightarrow> (Some e, s\<lparr>running := True, stop_event := False\<rparr>)
            | Inr b \<Rightarrow>
                (None, s\<lparr>running := True, stop_event := False,
                          buffers := buffers s @ [b],
                          buffer_model := Some (length (buffers s)),
                          threads := threads s @
                                     map (\<lambda>i. P_loop (i + 1) 1) [0..<nat p_count] @
                                     map (\<lambda>j. C_loop (j + 1)) [0..<nat c_count]\<rparr>)))"

text \<open>\<^verbatim>\<open>stop\<close> (lines 368-374) and \<^verbatim>\<open>reset_all\<close> (lines 376-386). \<^verbatim>\<open>reset_all\<close> sets
  the stop signal and the three counters to 0; it leaves \<^verbatim>\<open>running\<close>, the buffer and
  the threads as they are.\<close>

definition stop :: "session \<Rightarrow> session" where
  "stop s = (if \<not> running s then s else s\<lparr>stop_event := True, running := False\<rparr>)"

definition reset_all :: "session \<Rightarrow> session" where
  "reset_all s = s\<lparr>stop_event := True, produced_count := 0, consumed_count := 0, peak_buffer := 0\<rparr>"

definition label :: "nat \<Rightarrow> nat \<Rightarrow> string" where
  "label pid item_id = ''P'' @ str pid @ ''-'' @ str item_id"

text \<open>
  One step of a worker. Inside a method of a buffer it is that method's step, on the
  buffer object the method was called on and with the session's stop signal. Reading
  \<^verbatim>\<open>self.buffer_model\<close> gives the object it refers to at that moment; a reference is
  always to an object made before, so the tests \<open>r < length (buffers s)\<close> never fail in a
  run that begins with \<open>FullSimulatorC_init\<close>.
\<close>

fun worker_step :: "worker \<Rightarrow> session \<Rightarrow> (worker \<times> session) option" where
  "worker_step (P_loop pid item_id) s =
     Some (if stop_event s then W_stopped else P_try pid item_id, s)"
| "worker_step (P_try pid item_id) s =
     (case buffer_model s of
        None \<Rightarrow> Some (W_raised AttributeError, s)
      | Some r \<Rightarrow>
          (if r < length (buffers s)
           then Some (P_produce pid item_id r (produce (buffers s ! r) (label pid item_id)), s)
           else None))"
| "worker_step (P_produce pid item_id r p) s =
     (case outcome_of p of
        PutResult ok \<Rightarrow> Some (if \<not> ok then W_stopped else P_load pid item_id, s)
      | GetResult x \<Rightarrow> None
      | Raised e \<Rightarrow> Some (W_raised e, s)
      | InFlight \<Rightarrow>
          (if r < length (buffers s)
           then (case buf_step (stop_event s) p (buffers s ! r) of
                   None \<Rightarrow> None
                 | Some (p', b') \<Rightarrow>
                     Some (P_produce pid item_id r p', s\<lparr>buffers := (buffers s)[r := b']\<rparr>))
           else None))"
| "worker_step (P_load pid item_id) s = Some (P_store pid item_id (produced_count s), s)"
| "worker_step (P_store pid item_id v) s =
     Some (P_peak pid item_id, s\<lparr>produced_count := v + 1\<rparr>)"
| "worker_step (P_peak pid item_id) s =
     (case buffer_model s of
        None \<Rightarrow> Some (W_raised AttributeError, s)
      | Some r \<Rightarrow>
          (if r < length (buffers s)
           then Some (P_loop pid (item_id + 1),
                      s\<lparr>peak_buffer := max (peak_buffer s) (int (length (buf_q (buffers s ! r))))\<rparr>)
           else None))"
| "worker_step (C_loop cid) s = Some (if stop_event s then W_stopped else C_try cid, s)"
| "worker_step (C_try cid) s =
     (case buffer_model s of
        None \<Rightarrow> Some (W_raised AttributeError, s)
      | Some r \<Rightarrow>
          (if r < length (buffers s)
           then Some (C_consume cid r (consume (buffers s ! r)), s)
           else None))"
| "worker_step (C_consume cid r p) s =
     (case outcome_of p of
        GetResult x \<Rightarrow> Some (case x of None \<Rightarrow> W_stopped | Some item \<Rightarrow> C_load cid item, s)
      | PutResult ok \<Rightarrow> None
      | Raised e \<Rightarrow> Some (W_raised e, s)
      | InFlight \<Rightarrow>
          (if r < length (buffers s)
           then (case buf_step (stop_event s) p (buffers s ! r) of
                   None \<Rightarrow> None
                 | Some (p', b') \<Rightarrow>
                     Some (C_consume cid r p', s\<lparr>buffers := (buffers s)[r := b']\<rparr>))
           else None))"
| "worker_step (C_load cid item) s = Some (C_store cid item (consumed_count s), s)"
| "worker_step (C_store cid item v) s = Some (C_loop cid, s\<lparr>consumed_count := v + 1\<rparr>)"
| "worker_step W_stopped s = None"
| "worker_step (W_raised e) s = None"

text \<open>What happens to a session: a thread takes a step, or one of the buttons Start (with
  the values of the mode box and the spin boxes), Stop and Reset is pressed. The buttons
  are always enabled.\<close>

datatype event = Tick nat | Press_start string int int | Press_stop | Press_reset

fun session_event :: "event \<Rightarrow> session \<Rightarrow> session" where
  "session_event (Tick i) s =
     (if i < length (threads s)
      then (case worker_step (threads s ! i) s of
              None \<Rightarrow> s
            | Some (w', s') \<Rightarrow> s'\<lparr>threads := (threads s')[i := w']\<rparr>)
      else s)"
| "session_event (Press_start mode p_count c_count) s = snd (start mode p_count c_count s)"
| "session_event Press_stop s = stop s"
| "session_event Press_reset s = reset_all s"

fun session_run :: "event list \<Rightarrow> session \<Rightarrow> session" where
  "session_run [] s = s"
| "session_run (e # es) s = session_run es (session_event e s)"

text \<open>No Put or Get is in flight and no count is pending: every worker is outside the
  buffer's methods and outside the two halves of its \<^verbatim>\<open>+= 1\<close>, or has ended.\<close>

fun at_rest :: "worker \<Rightarrow> bool" where
  "at_rest (P_loop pid item_id) = True"
| "at_rest (P_try pid item_id) = True"
| "at_rest (P_peak pid item_id) = True"
| "at_rest (C_loop cid) = True"
| "at_rest (C_try cid) = True"
| "at_rest W_stopped = True"
| "at_rest (W_raised e) = True"
| "at_rest w = False"

definition session_quiescent :: "session \<Rightarrow> bool" where
  "session_quiescent s = list_all at_rest (threads s)"

text \<open>The length of the current buffer, \<^verbatim>\<open>len(self.buffer_model.q)\<close>, and the number of
  items in all the buffers the session has made.\<close>

definition session_length :: "session \<Rightarrow> int" where
  "session_length s =
     (case buffer_model s of
        None \<Rightarrow> 0
      | Some r \<Rightarrow> if r < length (buffers s) then int (length (buf_q (buffers s ! r))) else 0)"

definition total_length :: "session \<Rightarrow> int" where
  "total_length s = sum_list (map (\<lambda>b. int (length (buf_q b))) (buffers s))"

text \<open>
  A \<^verbatim>\<open>+= 1\<close> on a counter is whole when the counter still has the value the worker read
  at the moment the worker writes it: no other thread, and no Reset, has written the
  counter in between. \<open>updates_whole es s\<close> says so of every write of a counter in the
  run of \<open>es\<close> from \<open>s\<close>.
\<close>

fun whole :: "worker \<Rightarrow> session \<Rightarrow> bool" where
  "whole (P_store pid item_id v) s = (v = produced_count s)"
| "whole (C_store cid item v) s = (v = consumed_count s)"
| "whole w s = True"

fun whole_at :: "event \<Rightarrow> session \<Rightarrow> bool" where
  "whole_at (Tick i) s = (if i < length (threads s) then whole (threads s ! i) s else True)"
| "whole_at e s = True"

fun updates_whole :: "event list \<Rightarrow> session \<Rightarrow> bool" where
  "updates_whole [] s = True"
| "updates_whole (e # es) s = (whole_at e s \<and> updates_whole es (session_event e s))"

text \<open>
  \<open>appended p\<close> is 1 when the call at \<open>p\<close> has appended its item (it is past the append,
  or has returned accepted); \<open>removed p\<close> is 1 when the call has popped an item (it is past
  the pop with an item, or has returned one). \<open>pending w\<close> is what the worker \<open>w\<close> has done
  to the queue and not yet to the counters: 1 for a producer whose item is in and whose
  \<^verbatim>\<open>produced_count += 1\<close> is not yet written, -1 for a consumer whose item is out and
  whose \<^verbatim>\<open>consumed_count += 1\<close> is not yet written.
\<close>

fun appended :: "'a pc \<Rightarrow> int" where
  "appended (InMon (MP_return True)) = 1"
| "appended (InSem SP_relmutex) = 1"
| "appended (InSem SP_relfull) = 1"
| "appended (InSem (SP_return True)) = 1"
| "appended p = 0"

fun removed :: "'a pc \<Rightarrow> int" where
  "removed (InMon (MC_return (Some y))) = 1"
| "removed (InSem (SC_relmutex (Some y))) = 1"
| "removed (InSem (SC_relempty (Some y))) = 1"
| "removed (InSem (SC_return (Some y))) = 1"
| "removed p = 0"

fun pending :: "worker \<Rightarrow> int" where
  "pending (P_produce pid item_id r p) = appended p - removed p"
| "pending (P_load pid item_id) = 1"
| "pending (P_store pid item_id v) = 1"
| "pending (C_consume cid r p) = appended p - removed p"
| "pending (C_load cid item) = - 1"
| "pending (C_store cid item v) = - 1"
| "pending w = 0"


subsection \<open>The scenario with capacity 3\<close>

text \<open>
  Thread 0 is the producer, thread 1 the consumer. \<open>three_puts\<close>: the producer puts
  \<^verbatim>\<open>A1\<close>, \<^verbatim>\<open>A2\<close>, \<^verbatim>\<open>A3\<close>, each call run to its end, and calls Put for
  \<^verbatim>\<open>A4\<close>. \<open>producer_alone j\<close>: the producer goes on for \<open>j\<close> steps while the consumer
  does nothing. \<open>one_get\<close>: the consumer calls Get, and the two threads take steps in
  turn, sixteen each.
\<close>

definition put_to_end :: "string \<Rightarrow> string action list" where
  "put_to_end item = Call 0 (Put item) # replicate 7 (Step 0)"

definition three_puts :: "string action list" where
  "three_puts = put_to_end ''A1'' @ put_to_end ''A2'' @ put_to_end ''A3''"

definition producer_alone :: "nat \<Rightarrow> string action list" where
  "producer_alone j = replicate j (Step 0)"

definition one_get :: "string action list" where
  "one_get = Call 1 Get # concat (replicate 16 [Step 1, Step 0])"


subsection \<open>Two producers and a consumer at a buffer of capacity 2\<close>

text \<open>
  A schedule for each class in which the producers \<open>0\<close> and \<open>1\<close> and the consumer \<open>2\<close>
  are inside the buffer at the same time, the second producer gets in first, and a Put is
  cancelled by the stop signal; and a sequence of calls by one caller with a Put cancelled
  at the full buffer.
\<close>

definition fifo_sem_schedule :: "string action list" where
  "fifo_sem_schedule =
     [Call 0 (Put ''A1''), Call 1 (Put ''B1''), Call 2 Get,
      Step 0, Step 1, Step 2, Step 0, Step 1, Step 2,
      Step 1, Step 0, Step 1, Step 0, Step 1, Step 1, Step 1,
      Step 0, Step 0, Step 0, Step 2, Step 2, Step 2, Step 2, Step 2, Step 2,
      Step 0, Step 0,
      Call 1 (Put ''B2''), SetStop True, Step 1, SetStop False, Call 2 Get,
      Step 2, Step 2, Step 2, Step 2, Step 2, Step 2, Step 2,
      Call 2 Get, Step 2, Step 2, Step 2, Step 2, Step 2, Step 2, Step 2]"

definition fifo_mon_schedule :: "string action list" where
  "fifo_mon_schedule =
     [Call 0 (Put ''A1''), Call 1 (Put ''B1''), Call 2 Get,
      Step 2, Step 2, Step 2, Step 1, Step 0, Step 1, Step 1,
      Step 0, Step 2, Step 0, Step 0, Step 2, Step 2, Step 2,
      Call 1 (Put ''B2''), SetStop True, Step 1, Step 1, Step 1,
      Call 1 (Put ''B3''), Step 1, Step 1, Step 1, SetStop False, Call 2 Get,
      Step 2, Step 2, Step 2]"

definition fifo_calls :: "(string call \<times> bool list) list" where
  "fifo_calls =
     [(Put ''A1'', replicate 7 False), (Put ''A2'', replicate 7 False),
      (Put ''A3'', replicate 7 True), (Get, replicate 7 False),
      (Put ''A4'', replicate 7 False), (Get, replicate 7 False)]"


subsection \<open>Five sessions\<close>

text \<open>
  \<open>session_shared\<close>: two producers and a consumer at a semaphore buffer, the producers
  inside \<^verbatim>\<open>produce\<close> at the same time, each \<^verbatim>\<open>+= 1\<close> whole. \<open>session_restarted\<close>: Stop
  and Start are pressed while the producer of the first session is inside \<^verbatim>\<open>produce\<close>;
  it has not seen the stop signal, puts its item into the first buffer and counts it,
  while a new producer and a consumer work at the second buffer. \<open>session_second_start\<close>:
  a producer puts an item, Stop is pressed, the producer ends, Start is pressed again.
  \<open>session_reset\<close>: a producer puts an item and Reset is pressed. \<open>session_torn\<close>: two
  producers put an item each, both read \<^verbatim>\<open>produced_count\<close> and then both write it.
\<close>

definition session_shared :: "event list" where
  "session_shared =
     Press_start ''Semaphore'' 2 1 #
     concat (replicate 9 [Tick 0, Tick 1]) @ replicate 4 (Tick 0) @ replicate 6 (Tick 1) @
     replicate 12 (Tick 2)"

definition session_restarted :: "event list" where
  "session_restarted =
     [Press_start ''Monitor'' 1 0, Tick 0, Tick 0, Tick 0, Press_stop,
      Press_start ''Monitor'' 1 1] @
     replicate 6 (Tick 0) @ replicate 9 (Tick 1) @ replicate 8 (Tick 2)"

definition session_second_start :: "event list" where
  "session_second_start =
     Press_start ''Monitor'' 1 0 # replicate 9 (Tick 0) @
     [Press_stop, Tick 0, Press_start ''Monitor'' 1 0]"

definition session_reset :: "event list" where
  "session_reset = Press_start ''Monitor'' 1 0 # replicate 9 (Tick 0) @ [Press_reset]"

definition session_torn :: "event list" where
  "session_torn =
     Press_start ''Monitor'' 2 0 # replicate 7 (Tick 0) @ replicate 7 (Tick 1) @
     [Tick 0, Tick 1, Tick 0, Tick 1]"


section \<open>Proof devices\<close>

subsection \<open>Where one call alone can be\<close>

text \<open>
  \<open>put_path b item p c\<close>: a caller that entered \<^verbatim>\<open>produce(item)\<close> when the buffer was
  \<open>b\<close>, and has been the only thread at the buffer since, can be at \<open>p\<close> with the buffer
  now \<open>c\<close>. \<open>get_path\<close> is the same for \<^verbatim>\<open>consume\<close>.
\<close>

fun put_path :: "'a buffer \<Rightarrow> 'a \<Rightarrow> 'a pc \<Rightarrow> 'a buffer \<Rightarrow> bool" where
  "put_path (Monitor b) x (InMon p) (Monitor c) =
     (case p of
        MP_lock y \<Rightarrow> y = x \<and> c = b
      | MP_while y \<Rightarrow> y = x \<and> \<not> mon_lock b \<and> c = b\<lparr>mon_lock := True\<rparr>
      | MP_stop y \<Rightarrow>
          y = x \<and> \<not> mon_lock b \<and> c = b\<lparr>mon_lock := True\<rparr> \<and>
          int (length (mon_q b)) = mon_capacity b
      | MP_wait y \<Rightarrow> y = x \<and> \<not> mon_lock b \<and> c = b \<and> int (length (mon_q b)) = mon_capacity b
      | MP_append y \<Rightarrow>
          y = x \<and> \<not> mon_lock b \<and> c = b\<lparr>mon_lock := True\<rparr> \<and>
          int (length (mon_q b)) \<noteq> mon_capacity b
      | MP_return r \<Rightarrow>
          \<not> mon_lock b \<and>
          (if r then int (length (mon_q b)) \<noteq> mon_capacity b \<and> c = b\<lparr>mon_q := mon_q b @ [x]\<rparr>
           else int (length (mon_q b)) = mon_capacity b \<and> c = b)
      | _ \<Rightarrow> False)"
| "put_path (Semaphore b) x (InSem p) (Semaphore c) =
     (case p of
        SP_while1 y \<Rightarrow> y = x \<and> c = b
      | SP_empty y \<Rightarrow> y = x \<and> c = b
      | SP_while2 y \<Rightarrow> y = x \<and> c = b\<lparr>sem_empty := sem_empty b - 1\<rparr>
      | SP_mutex y \<Rightarrow> y = x \<and> c = b\<lparr>sem_empty := sem_empty b - 1\<rparr>
      | SP_cancel \<Rightarrow> c = b\<lparr>sem_empty := sem_empty b - 1\<rparr>
      | SP_append y \<Rightarrow>
          y = x \<and> c = b\<lparr>sem_empty := sem_empty b - 1, sem_mutex := sem_mutex b - 1\<rparr>
      | SP_relmutex \<Rightarrow>
          c = b\<lparr>sem_q := sem_q b @ [x], sem_empty := sem_empty b - 1,
                sem_mutex := sem_mutex b - 1\<rparr>
      | SP_relfull \<Rightarrow> c = b\<lparr>sem_q := sem_q b @ [x], sem_empty := sem_empty b - 1\<rparr>
      | SP_return r \<Rightarrow>
          (if r
           then c = b\<lparr>sem_q := sem_q b @ [x], sem_empty := sem_empty b - 1,
                       sem_full := sem_full b + 1\<rparr>
           else c = b)
      | _ \<Rightarrow> False)"
| "put_path b x p c = False"

fun get_path :: "'a buffer \<Rightarrow> 'a pc \<Rightarrow> 'a buffer \<Rightarrow> bool" where
  "get_path (Monitor b) (InMon p) (Monitor c) =
     (case p of
        MC_lock \<Rightarrow> c = b
      | MC_while \<Rightarrow> \<not> mon_lock b \<and> c = b\<lparr>mon_lock := True\<rparr>
      | MC_stop \<Rightarrow> \<not> mon_lock b \<and> c = b\<lparr>mon_lock := True\<rparr> \<and> mon_q b = []
      | MC_wait \<Rightarrow> \<not> mon_lock b \<and> c = b \<and> mon_q b = []
      | MC_pop \<Rightarrow> \<not> mon_lock b \<and> c = b\<lparr>mon_lock := True\<rparr> \<and> mon_q b \<noteq> []
      | MC_return r \<Rightarrow>
          \<not> mon_lock b \<and>
          (case r of
             None \<Rightarrow> mon_q b = [] \<and> c = b
           | Some y \<Rightarrow> mon_q b \<noteq> [] \<and> y = hd (mon_q b) \<and> c = b\<lparr>mon_q := tl (mon_q b)\<rparr>)
      | _ \<Rightarrow> False)"
| "get_path (Semaphore b) (InSem p) (Semaphore c) =
     (case p of
        SC_while1 \<Rightarrow> c = b
      | SC_full \<Rightarrow> c = b
      | SC_while2 \<Rightarrow> c = b\<lparr>sem_full := sem_full b - 1\<rparr>
      | SC_mutex \<Rightarrow> c = b\<lparr>sem_full := sem_full b - 1\<rparr>
      | SC_cancel \<Rightarrow> c = b\<lparr>sem_full := sem_full b - 1\<rparr>
      | SC_pop \<Rightarrow> c = b\<lparr>sem_full := sem_full b - 1, sem_mutex := sem_mutex b - 1\<rparr>
      | SC_relmutex r \<Rightarrow>
          (case r of
             None \<Rightarrow>
               sem_q b = [] \<and> c = b\<lparr>sem_full := sem_full b - 1, sem_mutex := sem_mutex b - 1\<rparr>
           | Some y \<Rightarrow>
               sem_q b \<noteq> [] \<and> y = hd (sem_q b) \<and>
               c = b\<lparr>sem_q := tl (sem_q b), sem_full := sem_full b - 1,
                     sem_mutex := sem_mutex b - 1\<rparr>)
      | SC_relempty r \<Rightarrow>
          (case r of
             None \<Rightarrow> sem_q b = [] \<and> c = b\<lparr>sem_full := sem_full b - 1\<rparr>
           | Some y \<Rightarrow>
               sem_q b \<noteq> [] \<and> y = hd (sem_q b) \<and>
               c = b\<lparr>sem_q := tl (sem_q b), sem_full := sem_full b - 1\<rparr>)
      | SC_return r \<Rightarrow>
          (case r of
             None \<Rightarrow>
               c = b \<or>
               sem_q b = [] \<and>
               c = b\<lparr>sem_empty := sem_empty b + 1, sem_full := sem_full b - 1\<rparr>
           | Some y \<Rightarrow>
               sem_q b \<noteq> [] \<and> y = hd (sem_q b) \<and>
               c = b\<lparr>sem_q := tl (sem_q b), sem_empty := sem_empty b + 1,
                     sem_full := sem_full b - 1\<rparr>)
      | _ \<Rightarrow> False)"
| "get_path b p c = False"


subsection \<open>Calls under a one-way stop signal\<close>

text \<open>
  The stop signal during one call, as the spec has it, one-way: \<open>Unset k\<close>, never set
  while the call is watched, for \<open>7 + k\<close> steps (seven being the steps of the longest
  method when nothing holds it up); or \<open>Set_after k n\<close>, unset for the first \<open>k\<close> steps
  of the call and set from then on, for \<open>7 + n\<close> steps more.
\<close>

datatype watch = Unset nat | Set_after nat nat

fun stops :: "watch \<Rightarrow> bool list" where
  "stops (Unset k) = replicate (7 + k) False"
| "stops (Set_after k n) = replicate k False @ replicate (7 + n) True"

definition timed :: "('a call \<times> watch) list \<Rightarrow> ('a call \<times> bool list) list" where
  "timed cs = map (\<lambda>(c, w). (c, stops w)) cs"

text \<open>
  A call cannot proceed when it is a Put and the buffer is full, or a Get and the buffer
  is empty. \<open>stop_harmless c w b\<close>: during the call \<open>c\<close>, made when the buffer is \<open>b\<close>,
  the stop signal is set only if the call cannot proceed, or only after the first three
  steps of the call, by when either method that can proceed has passed its stop tests
  (\<^verbatim>\<open>SemaphoreBuffer\<close> makes them in its first and third step). \<open>stops_harmless\<close> says
  so of every call of a sequence, each taken with the buffer it finds.
\<close>

fun cannot_proceed :: "'a call \<Rightarrow> 'a buffer \<Rightarrow> bool" where
  "cannot_proceed (Put x) b = (int (length (buf_q b)) = buf_capacity b)"
| "cannot_proceed Get b = (buf_q b = [])"

fun stop_harmless :: "'a call \<Rightarrow> watch \<Rightarrow> 'a buffer \<Rightarrow> bool" where
  "stop_harmless c (Unset k) b = True"
| "stop_harmless c (Set_after k n) b = (cannot_proceed c b \<or> 3 \<le> k)"

fun stops_harmless :: "('a call \<times> watch) list \<Rightarrow> 'a buffer \<Rightarrow> bool" where
  "stops_harmless [] b = True"
| "stops_harmless ((c, w) # cs) b =
     (stop_harmless c w b \<and>
      (case call_buffer c (stops w) b of
         (InFlight, b') \<Rightarrow> True
       | (r, b') \<Rightarrow> stops_harmless cs b'))"

text \<open>The two buffers in the same situation between calls: the same queue and capacity,
  lock and mutex free, and the permits counting the filled and the free slots.\<close>

definition coupled :: "'a MonitorBuffer \<Rightarrow> 'a SemaphoreBuffer \<Rightarrow> bool" where
  "coupled m s =
     (\<not> mon_lock m \<and> sem_mutex s = 1 \<and> mon_q m = sem_q s \<and>
      mon_capacity m = sem_capacity s \<and> sem_full s = int (length (sem_q s)) \<and>
      sem_empty s + sem_full s = sem_capacity s)"


subsection \<open>Where a thread is in each phase of a call\<close>

fun at_phase :: "'a phase \<Rightarrow> 'a pc \<Rightarrow> bool" where
  "at_phase Out p = outside p"
| "at_phase (Before (Put x)) p =
     (p \<in> {InMon (MP_lock x), InMon (MP_while x), InMon (MP_stop x), InMon (MP_wait x),
            InMon (MP_append x), InSem (SP_while1 x), InSem (SP_empty x), InSem (SP_while2 x),
            InSem (SP_mutex x), InSem SP_cancel, InSem (SP_append x)})"
| "at_phase (Before Get) p =
     (p \<in> {InMon MC_lock, InMon MC_while, InMon MC_stop, InMon MC_wait, InMon MC_pop,
            InSem SC_while1, InSem SC_full, InSem SC_while2, InSem SC_mutex, InSem SC_cancel,
            InSem SC_pop, InSem (SC_relmutex None), InSem (SC_relempty None)})"
| "at_phase (After r) p =
     (r = PutResult True \<and> p \<in> {InSem SP_relmutex, InSem SP_relfull} \<or>
      (\<exists>y. r = GetResult (Some y) \<and> p \<in> {InSem (SC_relmutex (Some y)), InSem (SC_relempty (Some y))}))"


subsection \<open>Permits and the lock, counted over the threads\<close>

text \<open>
  For the semaphore buffer. \<open>filled_in_flight p\<close> is 1 when the thread at \<open>p\<close> stands
  between an item being in the queue and the filled-slot permit for it being in the
  semaphore: a producer that has appended and not yet released \<^verbatim>\<open>full\<close>, or a consumer
  that has acquired \<^verbatim>\<open>full\<close> and not yet popped or given the permit back.
  \<open>empty_in_flight p\<close> is the same for the empty-slot permits: a producer that has
  acquired \<^verbatim>\<open>empty\<close> and not yet appended or given the permit back, or a consumer that
  has popped and not yet released \<^verbatim>\<open>empty\<close>. \<open>in_critical p\<close> is 1 between the acquire
  and the release of \<^verbatim>\<open>mutex\<close>. \<open>popped_empty p\<close>: the thread found the queue empty
  where it pops, which in \<^verbatim>\<open>SemaphoreBuffer.consume\<close> is the defensive branch that
  leaves \<^verbatim>\<open>item\<close> at \<^verbatim>\<open>None\<close> and in \<^verbatim>\<open>MonitorBuffer.consume\<close> is the
  \<^verbatim>\<open>IndexError\<close>.
\<close>

fun filled_in_flight :: "'a pc \<Rightarrow> int" where
  "filled_in_flight (InSem SP_relmutex) = 1"
| "filled_in_flight (InSem SP_relfull) = 1"
| "filled_in_flight (InSem SC_while2) = 1"
| "filled_in_flight (InSem SC_mutex) = 1"
| "filled_in_flight (InSem SC_cancel) = 1"
| "filled_in_flight (InSem SC_pop) = 1"
| "filled_in_flight p = 0"

fun empty_in_flight :: "'a pc \<Rightarrow> int" where
  "empty_in_flight (InSem (SP_while2 x)) = 1"
| "empty_in_flight (InSem (SP_mutex x)) = 1"
| "empty_in_flight (InSem SP_cancel) = 1"
| "empty_in_flight (InSem (SP_append x)) = 1"
| "empty_in_flight (InSem (SC_relmutex r)) = 1"
| "empty_in_flight (InSem (SC_relempty r)) = 1"
| "empty_in_flight p = 0"

fun in_critical :: "'a pc \<Rightarrow> int" where
  "in_critical (InSem (SP_append x)) = 1"
| "in_critical (InSem SP_relmutex) = 1"
| "in_critical (InSem SC_pop) = 1"
| "in_critical (InSem (SC_relmutex r)) = 1"
| "in_critical p = 0"

fun popped_empty :: "'a pc \<Rightarrow> bool" where
  "popped_empty (InSem (SC_relmutex None)) = True"
| "popped_empty (InSem (SC_relempty None)) = True"
| "popped_empty (InMon (MC_raise e)) = True"
| "popped_empty p = False"


definition sem_inv :: "'a system \<Rightarrow> bool" where
  "sem_inv s =
     (case sys_buffer s of
        Monitor b \<Rightarrow> False
      | Semaphore b \<Rightarrow>
          0 \<le> sem_empty b \<and> 0 \<le> sem_full b \<and> 0 \<le> sem_mutex b \<and>
          int (length (sem_q b)) = sem_full b + sum_list (map filled_in_flight (sys_threads s)) \<and>
          sem_capacity b =
            int (length (sem_q b)) + sem_empty b + sum_list (map empty_in_flight (sys_threads s)) \<and>
          sem_mutex b + sum_list (map in_critical (sys_threads s)) = 1 \<and>
          list_all (\<lambda>p. \<not> popped_empty p) (sys_threads s))"

text \<open>
  For the monitor buffer. \<open>holds_lock p\<close> is 1 when the thread at \<open>p\<close> is inside
  \<^verbatim>\<open>with self.lock\<close> and not inside a \<^verbatim>\<open>wait\<close>. \<open>mon_ready b p\<close> is what the thread
  has tested about the queue on its way to \<open>p\<close>.
\<close>

fun holds_lock :: "'a pc \<Rightarrow> int" where
  "holds_lock (InMon (MP_while x)) = 1"
| "holds_lock (InMon (MP_stop x)) = 1"
| "holds_lock (InMon (MP_append x)) = 1"
| "holds_lock (InMon MC_while) = 1"
| "holds_lock (InMon MC_stop) = 1"
| "holds_lock (InMon MC_pop) = 1"
| "holds_lock p = 0"

fun mon_ready :: "'a MonitorBuffer \<Rightarrow> 'a pc \<Rightarrow> bool" where
  "mon_ready b (InMon (MP_append x)) = (int (length (mon_q b)) \<noteq> mon_capacity b)"
| "mon_ready b (InMon MC_pop) = (mon_q b \<noteq> [])"
| "mon_ready b p = (\<not> popped_empty p)"

definition mon_inv :: "'a system \<Rightarrow> bool" where
  "mon_inv s =
     (case sys_buffer s of
        Semaphore b \<Rightarrow> False
      | Monitor b \<Rightarrow>
          (if mon_lock b then 1 else 0) = sum_list (map holds_lock (sys_threads s)) \<and>
          int (length (mon_q b)) \<le> mon_capacity b \<and>
          list_all (mon_ready b) (sys_threads s))"


subsection \<open>The counters against the buffers\<close>

text \<open>What the counters say, with what is not yet counted, against what the buffers hold;
  and \<^verbatim>\<open>self.buffer_model\<close> being the buffer made last.\<close>

definition balance :: "session \<Rightarrow> int" where
  "balance s =
     produced_count s - consumed_count s + sum_list (map pending (threads s)) - total_length s"

definition model_is_last :: "session \<Rightarrow> bool" where
  "model_is_last s =
     (case buffer_model s of
        None \<Rightarrow> buffers s = []
      | Some r \<Rightarrow> Suc r = length (buffers s))"


section \<open>Construction\<close>

text \<open>
  C7 (as the code has it). Neither constructor checks the capacity. A monitor buffer is
  built for every capacity, zero and negative ones too. A semaphore buffer is built for
  every capacity from zero on; a negative capacity is refused, not by a check of the
  buffer but by the semaphore for the empty slots, whose constructor raises
  \<^verbatim>\<open>ValueError\<close>.
\<close>

theorem C7_capacity_is_not_validated:
  "(new_buffer ''Monitor'' c :: error + 'a buffer) =
     Inr (Monitor \<lparr>mon_capacity = c, mon_q = [], mon_lock = False\<rparr>) \<and>
   (SemaphoreBuffer_init c :: error + 'a SemaphoreBuffer) =
     (if c < 0 then Inl ValueError
      else Inr \<lparr>sem_capacity = c, sem_q = [], sem_empty = c, sem_full = 0, sem_mutex = 1\<rparr>)"
  by (simp add: new_buffer_def MonitorBuffer_init_def SemaphoreBuffer_init_def Semaphore_init_def)

text \<open>C7 as stated fails: with capacity 0 both constructors return a buffer.\<close>

theorem C7_counterexample:
  "(SemaphoreBuffer_init 0 :: error + string SemaphoreBuffer) =
     Inr \<lparr>sem_capacity = 0, sem_q = [], sem_empty = 0, sem_full = 0, sem_mutex = 1\<rparr> \<and>
   (new_buffer ''Monitor'' 0 :: error + string buffer) =
     Inr (Monitor \<lparr>mon_capacity = 0, mon_q = [], mon_lock = False\<rparr>)"
  by (simp add: new_buffer_def MonitorBuffer_init_def SemaphoreBuffer_init_def Semaphore_init_def)

section \<open>One caller alone: what a call does\<close>

lemma buf_step_None_stop: "buf_step s p b = None \<Longrightarrow> buf_step s' p b = None"
  by (cases "(s, p, b)" rule: buf_step.cases)
     (auto split: option.splits if_splits prod.splits list.splits elim!: mon_step.elims sem_step.elims)

lemma run_stuck: "buf_step s p b = None \<Longrightarrow> run ss p b = (p, b)"
  by (cases ss) (simp_all add: buf_step_None_stop[of s p b])

lemma run_append: "run (xs @ ys) p b = (case run xs p b of (p', b') \<Rightarrow> run ys p' b')"
proof (induction xs arbitrary: p b)
  case Nil
  then show ?case by simp
next
  case (Cons s xs)
  show ?case
  proof (cases "buf_step s p b")
    case None
    then show ?thesis by (simp add: run_stuck)
  next
    case (Some r)
    then show ?thesis using Cons by (cases r) simp
  qed
qed

text \<open>A property that every step keeps, under the stop values of the list, holds at the
  end of the run.\<close>

lemma run_invariant:
  assumes step: "\<And>s p b p' b'. s \<in> set ss \<Longrightarrow> I p b \<Longrightarrow> buf_step s p b = Some (p', b') \<Longrightarrow> I p' b'"
    and "I p b" and "run ss p b = (p', b')"
  shows "I p' b'"
  using assms
proof (induction ss arbitrary: p b)
  case Nil
  then show ?case by simp
next
  case (Cons s ss)
  show ?case
  proof (cases "buf_step s p b")
    case None
    with Cons.prems show ?thesis by simp
  next
    case (Some r)
    obtain p1 b1 where r: "r = (p1, b1)" by (cases r)
    from Cons.prems(1)[of s p b p1 b1] Cons.prems(2) Some r have "I p1 b1" by simp
    moreover from Cons.prems(3) Some r have "run ss p1 b1 = (p', b')" by simp
    moreover have "\<And>s p b p' b'. s \<in> set ss \<Longrightarrow> I p b \<Longrightarrow> buf_step s p b = Some (p', b') \<Longrightarrow> I p' b'"
      using Cons.prems(1) by (meson list.set_intros(2))
    ultimately show ?thesis using Cons.IH by blast
  qed
qed

lemma put_path_entry: "put_path b x (produce b x) b"
  by (cases b) simp_all

lemma get_path_entry: "get_path b (consume b) b"
  by (cases b) simp_all

lemma put_path_mon_step:
  "put_path (Monitor b) x (InMon p) (Monitor c) \<Longrightarrow> mon_step s p c = Some (p', c') \<Longrightarrow>
   put_path (Monitor b) x (InMon p') (Monitor c')"
  by (cases p) (auto split: if_splits)

lemma put_path_sem_step:
  "put_path (Semaphore b) x (InSem p) (Semaphore c) \<Longrightarrow> sem_step s p c = Some (p', c') \<Longrightarrow>
   put_path (Semaphore b) x (InSem p') (Semaphore c')"
  by (cases p) (auto simp: acquire_def release_def split: if_splits)

lemma put_path_step:
  "put_path b x p c \<Longrightarrow> buf_step s p c = Some (p', c') \<Longrightarrow> put_path b x p' c'"
  by (cases b; cases c; cases p)
     (auto simp del: put_path.simps(1,2) split: option.splits
           intro: put_path_mon_step put_path_sem_step)

lemma get_path_mon_step:
  "get_path (Monitor b) (InMon p) (Monitor c) \<Longrightarrow> mon_step s p c = Some (p', c') \<Longrightarrow>
   get_path (Monitor b) (InMon p') (Monitor c')"
  by (cases p) (auto split: if_splits list.splits)

lemma get_path_sem_step:
  assumes "get_path (Semaphore b) (InSem p) (Semaphore c)" and "sem_step s p c = Some (p', c')"
  shows "get_path (Semaphore b) (InSem p') (Semaphore c')"
proof (cases p)
  case (SC_relmutex r)
  with assms show ?thesis by (cases r) (auto simp: release_def)
next
  case (SC_relempty r)
  with assms show ?thesis by (cases r) (auto simp: release_def)
next
  case SC_pop
  with assms show ?thesis by (cases "sem_q c") (auto simp: release_def)
qed (use assms in \<open>auto simp: acquire_def release_def split: if_splits\<close>)

lemma get_path_step:
  "get_path b p c \<Longrightarrow> buf_step s p c = Some (p', c') \<Longrightarrow> get_path b p' c'"
  by (cases b; cases c; cases p)
     (auto simp del: get_path.simps(1,2) split: option.splits
           intro: get_path_mon_step get_path_sem_step)

lemma run_put_path: "run ss (produce b x) b = (p', b') \<Longrightarrow> put_path b x p' b'"
  by (rule run_invariant[where I = "put_path b x" and ss = ss and p = "produce b x" and b = b])
     (auto intro: put_path_step put_path_entry)

lemma run_get_path: "run ss (consume b) b = (p', b') \<Longrightarrow> get_path b p' b'"
  by (rule run_invariant[where I = "get_path b" and ss = ss and p = "consume b" and b = b])
     (auto intro: get_path_step get_path_entry)

lemma buf_step_returned: "outcome_of p \<noteq> InFlight \<Longrightarrow> buf_step s p b = None"
proof (cases p)
  case Idle
  then show ?thesis by simp
next
  case (InMon pa)
  assume "outcome_of p \<noteq> InFlight"
  with InMon show ?thesis by (cases b; cases pa) auto
next
  case (InSem pa)
  assume "outcome_of p \<noteq> InFlight"
  with InSem show ?thesis by (cases b; cases pa) auto
qed

lemma run_returned [simp]: "outcome_of p \<noteq> InFlight \<Longrightarrow> run ss p b = (p, b)"
  by (rule run_stuck[where s = False]) (rule buf_step_returned)

lemma run_put_false:
  assumes "run ss (produce b x) b = (p', b')" and "outcome_of p' = PutResult False"
  shows "b' = b"
proof -
  from assms(1) have "put_path b x p' b'" by (rule run_put_path)
  with assms(2) show ?thesis
    by (cases "(b, x, p', b')" rule: put_path.cases)
       (auto split: mon_pc.splits sem_pc.splits if_splits)
qed

subsection \<open>A rejected Put\<close>

text \<open>
  C6. For both buffers: when Put returns not-accepted, the buffer is as it was before the
  call; the item is not in the queue, and the queue, its length and (for the semaphore
  buffer) the permits are the same. This holds for a call that runs with no other thread
  at the buffer, whatever the stop signal does during the call and from whatever state
  the buffer is in, so also on the path that took an empty-slot permit and gave it back.
\<close>

theorem C6_rejected_put_leaves_buffer:
  "call_buffer (Put x) ss b = (PutResult False, b') \<Longrightarrow> b' = b"
  by (auto simp: call_buffer_def split: prod.splits dest: run_put_false)

theorem C6_witness:
  "call_buffer (Put ''A2'') [False, False, True, True]
     (Semaphore \<lparr>sem_capacity = 1, sem_q = [], sem_empty = 1, sem_full = 0, sem_mutex = 1\<rparr>) =
   (PutResult False,
     Semaphore \<lparr>sem_capacity = 1, sem_q = [], sem_empty = 1, sem_full = 0, sem_mutex = 1\<rparr>) \<and>
   call_buffer (Put ''A2'') [False, False, True]
     (Monitor \<lparr>mon_capacity = 1, mon_q = [''A1''], mon_lock = False\<rparr>) =
   (PutResult False, Monitor \<lparr>mon_capacity = 1, mon_q = [''A1''], mon_lock = False\<rparr>)"
proof -
  let ?s = "Semaphore \<lparr>sem_capacity = 1, sem_q = [], sem_empty = 1, sem_full = 0, sem_mutex = 1\<rparr> :: string buffer"
  let ?m = "Monitor \<lparr>mon_capacity = 1, mon_q = [''A1''], mon_lock = False\<rparr>"
  have 1: "fst (call_buffer (Put ''A2'') [False, False, True, True] ?s) = PutResult False"
    by (simp add: call_buffer_def acquire_def release_def)
  have 2: "fst (call_buffer (Put ''A2'') [False, False, True] ?m) = PutResult False"
    by (simp add: call_buffer_def)
  from 1 C6_rejected_put_leaves_buffer[of "''A2''" "[False, False, True, True]" ?s]
  have "call_buffer (Put ''A2'') [False, False, True, True] ?s = (PutResult False, ?s)"
    by (metis prod.collapse)
  moreover from 2 C6_rejected_put_leaves_buffer[of "''A2''" "[False, False, True]" ?m]
  have "call_buffer (Put ''A2'') [False, False, True] ?m = (PutResult False, ?m)"
    by (metis prod.collapse)
  ultimately show ?thesis by simp
qed

lemma run_put_queue:
  assumes "run ss (produce b x) b = (p', b')" and "outcome_of p' \<noteq> InFlight"
  shows "(outcome_of p' = PutResult True \<and> buf_q b' = buf_q b @ [x]) \<or>
         (outcome_of p' = PutResult False \<and> buf_q b' = buf_q b)"
proof -
  from assms(1) have "put_path b x p' b'" by (rule run_put_path)
  with assms(2) show ?thesis
    by (cases "(b, x, p', b')" rule: put_path.cases)
       (auto split: mon_pc.splits sem_pc.splits if_splits)
qed

lemma run_get_queue:
  assumes "run ss (consume b) b = (p', b')" and "outcome_of p' \<noteq> InFlight"
  shows "(outcome_of p' = GetResult None \<and> buf_q b' = buf_q b) \<or>
         (\<exists>y. outcome_of p' = GetResult (Some y) \<and> buf_q b = y # buf_q b')"
proof -
  from assms(1) have "get_path b p' b'" by (rule run_get_path)
  with assms(2) show ?thesis
    by (cases "(b, p', b')" rule: get_path.cases)
       (auto split: mon_pc.splits sem_pc.splits if_splits option.splits)
qed

lemma call_queue:
  assumes "call_buffer c ss b = (r, b')" and "r \<noteq> InFlight"
  shows "(\<exists>x. c = Put x \<and> r = PutResult True \<and> buf_q b' = buf_q b @ [x]) \<or>
         (\<exists>x. c = Put x \<and> r = PutResult False \<and> buf_q b' = buf_q b) \<or>
         (c = Get \<and> r = GetResult None \<and> buf_q b' = buf_q b) \<or>
         (\<exists>y. c = Get \<and> r = GetResult (Some y) \<and> buf_q b = y # buf_q b')"
proof (cases c)
  case (Put x)
  with assms run_put_queue[of ss b x] show ?thesis
    by (auto simp: call_buffer_def split: prod.splits)
next
  case Get
  with assms run_get_queue[of ss b] show ?thesis
    by (auto simp: call_buffer_def split: prod.splits)
qed

subsection \<open>First in, first out\<close>

text \<open>
  For both buffers and every sequence of calls that have all returned (made one after
  another, under any stop patterns, from any buffer): the items the Gets returned, in
  call order, followed by what is left in the queue, are exactly what was in the queue
  at the start followed by the items of the accepted Puts, in call order.
\<close>

lemma calls_fifo:
  "calls cs b = (rs, b') \<Longrightarrow> InFlight \<notin> set rs \<Longrightarrow>
   buf_q b @ accepted cs rs = returned rs @ buf_q b'"
proof (induction cs arbitrary: b rs b')
  case Nil
  then show ?case by simp
next
  case (Cons a cs)
  obtain c ss where a: "a = (c, ss)" by (cases a)
  obtain r b1 where cb: "call_buffer c ss b = (r, b1)" by (cases "call_buffer c ss b")
  show ?case
  proof (cases "r = InFlight")
    case True
    with Cons.prems a cb show ?thesis by auto
  next
    case False
    obtain rs1 b2 where rec: "calls cs b1 = (rs1, b2)" by (cases "calls cs b1")
    from Cons.prems(1) a cb False rec have rs: "rs = r # rs1" and b': "b' = b2"
      by (cases r; simp)+
    from Cons.prems(2) rs have "InFlight \<notin> set rs1" by simp
    with rec have IH: "buf_q b1 @ accepted cs rs1 = returned rs1 @ buf_q b2" by (rule Cons.IH)
    from call_queue[OF cb False] show ?thesis
      using IH a rs b' by (elim disjE exE conjE) simp_all
  qed
qed

lemma mon_unlock_id: "\<not> mon_lock b \<Longrightarrow> b\<lparr>mon_lock := False\<rparr> = b"
  by simp

lemma mon_put_run3:
  "\<not> mon_lock b \<Longrightarrow>
   run (s1 # s2 # s3 # ss) (InMon (MP_lock x)) (Monitor b) =
     (if int (length (mon_q b)) = mon_capacity b
      then (if s3 then (InMon (MP_return False), Monitor b)
            else run ss (InMon (MP_wait x)) (Monitor b))
      else (InMon (MP_return True), Monitor (b\<lparr>mon_q := mon_q b @ [x]\<rparr>)))"
  by (simp add: mon_unlock_id)

lemma mon_get_run3:
  "\<not> mon_lock b \<Longrightarrow>
   run (s1 # s2 # s3 # ss) (InMon MC_lock) (Monitor b) =
     (case mon_q b of
        [] \<Rightarrow> (if s3 then (InMon (MC_return None), Monitor b)
               else run ss (InMon MC_wait) (Monitor b))
      | y # ys \<Rightarrow> (InMon (MC_return (Some y)), Monitor (b\<lparr>mon_q := ys\<rparr>)))"
  by (simp add: mon_unlock_id split: list.splits)

lemma sem_put_set: "run (True # ss) (InSem (SP_while1 x)) (Semaphore b) = (InSem (SP_return False), Semaphore b)"
  by simp

lemma sem_get_set: "run (True # ss) (InSem SC_while1) (Semaphore b) = (InSem (SC_return None), Semaphore b)"
  by simp

lemma replicate3: "3 \<le> n \<Longrightarrow> replicate n s = s # s # s # replicate (n - 3) s"
  by (cases n; simp; rename_tac m; case_tac m; simp; rename_tac k; case_tac k; simp)

subsection \<open>Calls with the stop signal set\<close>

text \<open>
  C2 (as the code has it). With the stop signal set when the call starts, the semaphore
  buffer refuses every Put and fails every Get, whatever the buffer holds, and leaves the
  buffer as it is. The monitor buffer reads the stop signal only when it would have to
  wait: with the stop signal set during the call, a Put is refused only when the buffer is
  full and otherwise accepted and appended, and a Get fails only when the buffer is empty
  and otherwise returns the head item.
\<close>

theorem C2_stop_set:
  "call_buffer (Put x) (True # ss) (Semaphore sb) = (PutResult False, Semaphore sb) \<and>
   call_buffer Get (True # ss) (Semaphore sb) = (GetResult None, Semaphore sb) \<and>
   (\<not> mon_lock mb \<and> 3 \<le> n \<longrightarrow>
      call_buffer (Put x) (replicate n True) (Monitor mb) =
        (if int (length (mon_q mb)) = mon_capacity mb then (PutResult False, Monitor mb)
         else (PutResult True, Monitor (mb\<lparr>mon_q := mon_q mb @ [x]\<rparr>))) \<and>
      call_buffer Get (replicate n True) (Monitor mb) =
        (case mon_q mb of
           [] \<Rightarrow> (GetResult None, Monitor mb)
         | y # ys \<Rightarrow> (GetResult (Some y), Monitor (mb\<lparr>mon_q := ys\<rparr>))))"
  by (auto simp: call_buffer_def replicate3 split: list.splits)

theorem C2_witness:
  "\<not> mon_lock \<lparr>mon_capacity = 1, mon_q = [''A0''], mon_lock = False\<rparr> \<and> (3::nat) \<le> 3 \<and>
   call_buffer (Put ''A1'') (replicate 3 True)
     (Monitor \<lparr>mon_capacity = 1, mon_q = [''A0''], mon_lock = False\<rparr>) =
     (PutResult False, Monitor \<lparr>mon_capacity = 1, mon_q = [''A0''], mon_lock = False\<rparr>) \<and>
   call_buffer Get (replicate 3 True)
     (Monitor \<lparr>mon_capacity = 1, mon_q = [''A0''], mon_lock = False\<rparr>) =
     (GetResult (Some ''A0''), Monitor \<lparr>mon_capacity = 1, mon_q = [], mon_lock = False\<rparr>) \<and>
   call_buffer (Put ''A1'') [True]
     (Semaphore \<lparr>sem_capacity = 1, sem_q = [], sem_empty = 1, sem_full = 0, sem_mutex = 1\<rparr>) =
     (PutResult False,
      Semaphore \<lparr>sem_capacity = 1, sem_q = [], sem_empty = 1, sem_full = 0, sem_mutex = 1\<rparr>)"
  using C2_stop_set[of "''A1''" "[]"
      "\<lparr>sem_capacity = 1, sem_q = [], sem_empty = 1, sem_full = 0, sem_mutex = 1\<rparr>"
      "\<lparr>mon_capacity = 1, mon_q = [''A0''], mon_lock = False\<rparr>" 3]
  by simp

text \<open>C2 as stated fails for the monitor buffer: with the stop signal set throughout,
  a Put to a buffer with free space is accepted and a Get from a buffer with an item
  returns it.\<close>

theorem C2_counterexample:
  "call_buffer (Put ''A1'') [True, True, True] (Monitor (MonitorBuffer_init 2)) =
     (PutResult True, Monitor \<lparr>mon_capacity = 2, mon_q = [''A1''], mon_lock = False\<rparr>) \<and>
   call_buffer Get [True, True, True]
     (Monitor \<lparr>mon_capacity = 2, mon_q = [''A1''], mon_lock = False\<rparr>) =
     (GetResult (Some ''A1''), Monitor \<lparr>mon_capacity = 2, mon_q = [], mon_lock = False\<rparr>)"
  by (simp add: call_buffer_def MonitorBuffer_init_def)

lemma replicate7: "replicate (7 + k) s = s # s # s # s # s # s # s # replicate k s"
  by (simp add: numeral_eq_Suc)

lemma sem_put_unset7:
  "sem_empty b \<noteq> 0 \<Longrightarrow> sem_mutex b \<noteq> 0 \<Longrightarrow>
   run (replicate (7 + k) False) (InSem (SP_while1 x)) (Semaphore b) =
     (InSem (SP_return True),
      Semaphore (b\<lparr>sem_q := sem_q b @ [x], sem_empty := sem_empty b - 1,
                   sem_full := sem_full b + 1\<rparr>))"
  by (simp add: replicate7 acquire_def release_def)

lemma sem_get_unset7:
  "sem_full b \<noteq> 0 \<Longrightarrow> sem_mutex b \<noteq> 0 \<Longrightarrow> sem_q b = y # ys \<Longrightarrow>
   run (replicate (7 + k) False) (InSem SC_while1) (Semaphore b) =
     (InSem (SC_return (Some y)),
      Semaphore (b\<lparr>sem_q := ys, sem_empty := sem_empty b + 1,
                   sem_full := sem_full b - 1\<rparr>))"
  by (simp add: replicate7 acquire_def release_def)

lemma mon_put_unset7:
  "\<not> mon_lock b \<Longrightarrow> int (length (mon_q b)) \<noteq> mon_capacity b \<Longrightarrow>
   run (replicate (7 + k) False) (InMon (MP_lock x)) (Monitor b) =
     (InMon (MP_return True), Monitor (b\<lparr>mon_q := mon_q b @ [x]\<rparr>))"
  by (simp add: replicate7 mon_unlock_id)

lemma mon_get_unset7:
  "\<not> mon_lock b \<Longrightarrow> mon_q b = y # ys \<Longrightarrow>
   run (replicate (7 + k) False) (InMon MC_lock) (Monitor b) =
     (InMon (MC_return (Some y)), Monitor (b\<lparr>mon_q := ys\<rparr>))"
  by (simp add: replicate7 mon_unlock_id)

text \<open>Blocked calls.\<close>

lemma sem_put_blocked:
  assumes "sem_empty b = 0" and "run (replicate n False) (InSem (SP_while1 x)) (Semaphore b) = (p', b')"
  shows "outcome_of p' = InFlight \<and> b' = Semaphore b"
proof -
  let ?I = "\<lambda>p c. (p = InSem (SP_while1 x) \<or> p = InSem (SP_empty x)) \<and> c = Semaphore b"
  have "?I p' b'"
    by (rule run_invariant[where I = ?I, OF _ _ assms(2)])
       (use assms(1) in \<open>auto simp: acquire_def\<close>)
  then show ?thesis by auto
qed

lemma sem_get_blocked:
  assumes "sem_full b = 0" and "run (replicate n False) (InSem SC_while1) (Semaphore b) = (p', b')"
  shows "outcome_of p' = InFlight \<and> b' = Semaphore b"
proof -
  let ?I = "\<lambda>p c. (p = InSem SC_while1 \<or> p = InSem SC_full) \<and> c = Semaphore b"
  have "?I p' b'"
    by (rule run_invariant[where I = ?I, OF _ _ assms(2)])
       (use assms(1) in \<open>auto simp: acquire_def\<close>)
  then show ?thesis by auto
qed

lemma mon_put_blocked:
  assumes "int (length (mon_q b)) = mon_capacity b"
    and "run (replicate n False) (InMon (MP_lock x)) (Monitor b) = (p', b')"
  shows "outcome_of p' = InFlight \<and> buf_q b' = mon_q b"
proof -
  let ?I = "\<lambda>p c. put_path (Monitor b) x p c \<and> outcome_of p = InFlight"
  have step: "\<And>s p c p' c'. s \<in> set (replicate n False) \<Longrightarrow> ?I p c \<Longrightarrow>
      buf_step s p c = Some (p', c') \<Longrightarrow> ?I p' c'"
  proof (intro conjI)
    fix s p c p' c'
    assume s: "s \<in> set (replicate n False)" and I: "?I p c" and st: "buf_step s p c = Some (p', c')"
    from I st show "put_path (Monitor b) x p' c'" by (auto intro: put_path_step)
    from s have "s = False" by auto
    with I st assms(1) show "outcome_of p' = InFlight"
      by (cases p; cases c) (auto split: mon_pc.splits option.splits if_splits)
  qed
  have "?I p' b'"
    by (rule run_invariant[where I = ?I, OF step _ assms(2)]) auto
  then show ?thesis
    by (cases p'; cases b') (auto split: mon_pc.splits)
qed

lemma mon_get_blocked:
  assumes "mon_q b = []"
    and "run (replicate n False) (InMon MC_lock) (Monitor b) = (p', b')"
  shows "outcome_of p' = InFlight \<and> buf_q b' = mon_q b"
proof -
  let ?I = "\<lambda>p c. get_path (Monitor b) p c \<and> outcome_of p = InFlight"
  have step: "\<And>s p c p' c'. s \<in> set (replicate n False) \<Longrightarrow> ?I p c \<Longrightarrow>
      buf_step s p c = Some (p', c') \<Longrightarrow> ?I p' c'"
  proof (intro conjI)
    fix s p c p' c'
    assume s: "s \<in> set (replicate n False)" and I: "?I p c" and st: "buf_step s p c = Some (p', c')"
    from I st show "get_path (Monitor b) p' c'" by (auto intro: get_path_step)
    from s have "s = False" by auto
    with I st assms(1) show "outcome_of p' = InFlight"
      by (cases p; cases c) (auto split: mon_pc.splits option.splits if_splits)
  qed
  have "?I p' b'"
    by (rule run_invariant[where I = ?I, OF step _ assms(2)]) auto
  then show ?thesis
    by (cases p'; cases b') (auto split: mon_pc.splits)
qed


lemma coupled_put:
  assumes "coupled m s"
    and "call_buffer (Put x) (replicate (7 + k) False) (Monitor m) = (r1, b1)"
    and "call_buffer (Put x) (replicate (7 + k) False) (Semaphore s) = (r2, b2)"
  shows "r1 = r2 \<and> buf_q b1 = buf_q b2 \<and>
         (r1 \<noteq> InFlight \<longrightarrow> (\<exists>m' s'. b1 = Monitor m' \<and> b2 = Semaphore s' \<and> coupled m' s'))"
proof (cases "int (length (mon_q m)) = mon_capacity m")
  case True
  with assms(1) have e: "sem_empty s = 0" by (simp add: coupled_def)
  obtain p1 where 1: "run (replicate (7 + k) False) (InMon (MP_lock x)) (Monitor m) = (p1, b1)"
    and r1: "r1 = outcome_of p1"
    using assms(2) by (auto simp: call_buffer_def split: prod.splits)
  obtain p2 where 2: "run (replicate (7 + k) False) (InSem (SP_while1 x)) (Semaphore s) = (p2, b2)"
    and r2: "r2 = outcome_of p2"
    using assms(3) by (auto simp: call_buffer_def split: prod.splits)
  from mon_put_blocked[OF True 1] sem_put_blocked[OF e 2] r1 r2 assms(1)
  show ?thesis by (simp add: coupled_def)
next
  case False
  with assms(1) have e: "sem_empty s \<noteq> 0" "sem_mutex s \<noteq> 0" "\<not> mon_lock m"
    by (auto simp: coupled_def)
  from assms(2,3) False e assms(1) show ?thesis
    by (auto simp: call_buffer_def mon_put_unset7 sem_put_unset7 coupled_def)
qed

lemma coupled_get:
  assumes "coupled m s"
    and "call_buffer Get (replicate (7 + k) False) (Monitor m) = (r1, b1)"
    and "call_buffer Get (replicate (7 + k) False) (Semaphore s) = (r2, b2)"
  shows "r1 = r2 \<and> buf_q b1 = buf_q b2 \<and>
         (r1 \<noteq> InFlight \<longrightarrow> (\<exists>m' s'. b1 = Monitor m' \<and> b2 = Semaphore s' \<and> coupled m' s'))"
proof (cases "mon_q m")
  case Nil
  with assms(1) have e: "sem_full s = 0" by (simp add: coupled_def)
  obtain p1 where 1: "run (replicate (7 + k) False) (InMon MC_lock) (Monitor m) = (p1, b1)"
    and r1: "r1 = outcome_of p1"
    using assms(2) by (auto simp: call_buffer_def split: prod.splits)
  obtain p2 where 2: "run (replicate (7 + k) False) (InSem SC_while1) (Semaphore s) = (p2, b2)"
    and r2: "r2 = outcome_of p2"
    using assms(3) by (auto simp: call_buffer_def split: prod.splits)
  from mon_get_blocked[OF Nil 1] sem_get_blocked[OF e 2] r1 r2 assms(1)
  show ?thesis by (simp add: coupled_def)
next
  case (Cons y ys)
  with assms(1) have e: "sem_full s \<noteq> 0" "sem_mutex s \<noteq> 0" "\<not> mon_lock m" "sem_q s = y # ys"
    by (auto simp: coupled_def)
  from assms(2,3) Cons e assms(1) show ?thesis
    by (auto simp: call_buffer_def mon_get_unset7 sem_get_unset7 coupled_def)
qed

lemma coupled_call:
  assumes "coupled m s"
    and "call_buffer c (replicate (7 + k) False) (Monitor m) = (r1, b1)"
    and "call_buffer c (replicate (7 + k) False) (Semaphore s) = (r2, b2)"
  shows "r1 = r2 \<and> buf_q b1 = buf_q b2 \<and>
         (r1 \<noteq> InFlight \<longrightarrow> (\<exists>m' s'. b1 = Monitor m' \<and> b2 = Semaphore s' \<and> coupled m' s'))"
  using assms by (cases c) (auto dest: coupled_put coupled_get)

text \<open>The stop signal set during a call.\<close>

lemma length_ge3: "3 \<le> length (ss :: 'b list) \<Longrightarrow> \<exists>a b c r. ss = a # b # c # r"
  by (cases ss; cases "tl ss"; cases "tl (tl ss)") auto

lemma length_ge4: "4 \<le> length (ss :: 'b list) \<Longrightarrow> \<exists>a b c d r. ss = a # b # c # d # r"
  by (cases ss; cases "tl ss"; cases "tl (tl ss)"; cases "tl (tl (tl ss))") auto

lemma late_stop_shape:
  assumes "3 \<le> k"
  shows "\<exists>a b c d r. replicate k False @ replicate (7 + n) True =
           False # False # False # a # b # c # d # r"
proof -
  from assms obtain j where k: "k = Suc (Suc (Suc j))"
    by (metis Suc_le_D le_Suc_eq numeral_3_eq_3 Suc_le_mono le0 not0_implies_Suc not_less_eq_eq)
  have "4 \<le> length (replicate j False @ replicate (7 + n) True)" by simp
  from length_ge4[OF this] obtain a b c d r
    where "replicate j False @ replicate (7 + n) True = a # b # c # d # r" by blast
  with k show ?thesis by simp
qed

lemma early_stop_shape:
  assumes "\<not> 3 \<le> (k::nat)"
  shows "\<exists>r. replicate k False @ replicate (7 + n) True = True # True # True # True # r \<or>
         replicate k False @ replicate (7 + n) True = False # True # True # True # r \<or>
         replicate k False @ replicate (7 + n) True = False # False # True # True # r"
proof -
  from assms have "k = 0 \<or> k = 1 \<or> k = 2" by arith
  then show ?thesis by (auto simp: numeral_eq_Suc)
qed

lemma mon_put_any3:
  "\<not> mon_lock b \<Longrightarrow> int (length (mon_q b)) \<noteq> mon_capacity b \<Longrightarrow> 3 \<le> length ss \<Longrightarrow>
   run ss (InMon (MP_lock x)) (Monitor b) =
     (InMon (MP_return True), Monitor (b\<lparr>mon_q := mon_q b @ [x]\<rparr>))"
  by (drule length_ge3) (auto simp: mon_unlock_id)

lemma mon_get_any3:
  "\<not> mon_lock b \<Longrightarrow> mon_q b = y # ys \<Longrightarrow> 3 \<le> length ss \<Longrightarrow>
   run ss (InMon MC_lock) (Monitor b) =
     (InMon (MC_return (Some y)), Monitor (b\<lparr>mon_q := ys\<rparr>))"
  by (drule length_ge3) (auto simp: mon_unlock_id)

lemma sem_put_late_stop:
  assumes "sem_empty b \<noteq> 0" "sem_mutex b \<noteq> 0" "3 \<le> k"
  shows "run (replicate k False @ replicate (7 + n) True) (InSem (SP_while1 x)) (Semaphore b) =
     (InSem (SP_return True),
      Semaphore (b\<lparr>sem_q := sem_q b @ [x], sem_empty := sem_empty b - 1,
                   sem_full := sem_full b + 1\<rparr>))"
proof -
  from late_stop_shape[OF assms(3), of n] obtain a c d e r where
    "replicate k False @ replicate (7 + n) True = False # False # False # a # c # d # e # r"
    by blast
  with assms(1,2) show ?thesis by (simp add: acquire_def release_def)
qed

lemma sem_get_late_stop:
  assumes "sem_full b \<noteq> 0" "sem_mutex b \<noteq> 0" "sem_q b = y # ys" "3 \<le> k"
  shows "run (replicate k False @ replicate (7 + n) True) (InSem SC_while1) (Semaphore b) =
     (InSem (SC_return (Some y)),
      Semaphore (b\<lparr>sem_q := ys, sem_empty := sem_empty b + 1,
                   sem_full := sem_full b - 1\<rparr>))"
proof -
  from late_stop_shape[OF assms(4), of n] obtain a c d e r where
    "replicate k False @ replicate (7 + n) True = False # False # False # a # c # d # e # r"
    by blast
  with assms(1,2,3) show ?thesis by (simp add: acquire_def release_def)
qed

lemma sem_put_early_stop:
  assumes "sem_empty b \<noteq> 0" "\<not> 3 \<le> k"
  shows "run (replicate k False @ replicate (7 + n) True) (InSem (SP_while1 x)) (Semaphore b) =
     (InSem (SP_return False), Semaphore b)"
  using early_stop_shape[OF assms(2), of n] assms(1)
  by (auto simp: acquire_def release_def)

lemma sem_get_early_stop:
  assumes "sem_full b \<noteq> 0" "\<not> 3 \<le> k"
  shows "run (replicate k False @ replicate (7 + n) True) (InSem SC_while1) (Semaphore b) =
     (InSem (SC_return None), Semaphore b)"
  using early_stop_shape[OF assms(2), of n] assms(1)
  by (auto simp: acquire_def release_def)

text \<open>Blocked, then cancelled.\<close>

lemma sem_put_cancelled:
  assumes "sem_empty b = 0"
  shows "run (replicate k False @ replicate (7 + n) True) (InSem (SP_while1 x)) (Semaphore b) =
     (InSem (SP_return False), Semaphore b)"
proof -
  obtain p' b' where r: "run (replicate k False) (InSem (SP_while1 x)) (Semaphore b) = (p', b')"
    by (cases "run (replicate k False) (InSem (SP_while1 x)) (Semaphore b)")
  let ?I = "\<lambda>p c. (p = InSem (SP_while1 x) \<or> p = InSem (SP_empty x)) \<and> c = Semaphore b"
  have "?I p' b'"
    by (rule run_invariant[where I = ?I, OF _ _ r])
       (use assms in \<open>auto simp: acquire_def\<close>)
  with r assms show ?thesis
    by (auto simp: run_append replicate7 acquire_def)
qed

lemma sem_get_cancelled:
  assumes "sem_full b = 0"
  shows "run (replicate k False @ replicate (7 + n) True) (InSem SC_while1) (Semaphore b) =
     (InSem (SC_return None), Semaphore b)"
proof -
  obtain p' b' where r: "run (replicate k False) (InSem SC_while1) (Semaphore b) = (p', b')"
    by (cases "run (replicate k False) (InSem SC_while1) (Semaphore b)")
  let ?I = "\<lambda>p c. (p = InSem SC_while1 \<or> p = InSem SC_full) \<and> c = Semaphore b"
  have "?I p' b'"
    by (rule run_invariant[where I = ?I, OF _ _ r])
       (use assms in \<open>auto simp: acquire_def\<close>)
  with r assms show ?thesis
    by (auto simp: run_append replicate7 acquire_def)
qed

lemma mon_lock_id: "\<not> mon_lock b \<Longrightarrow> b\<lparr>mon_lock := True, mon_lock := False\<rparr> = b"
  by simp

lemma mon_put_cancelled:
  assumes "\<not> mon_lock b" "int (length (mon_q b)) = mon_capacity b"
  shows "run (replicate k False @ replicate (7 + n) True) (InMon (MP_lock x)) (Monitor b) =
     (InMon (MP_return False), Monitor b)"
proof -
  obtain p' b' where r: "run (replicate k False) (InMon (MP_lock x)) (Monitor b) = (p', b')"
    by (cases "run (replicate k False) (InMon (MP_lock x)) (Monitor b)")
  let ?I = "\<lambda>p c. ((p = InMon (MP_lock x) \<or> p = InMon (MP_wait x)) \<and> c = Monitor b) \<or>
                  ((p = InMon (MP_while x) \<or> p = InMon (MP_stop x)) \<and>
                   c = Monitor (b\<lparr>mon_lock := True\<rparr>))"
  have "?I p' b'"
    by (rule run_invariant[where I = ?I, OF _ _ r])
       (use assms in \<open>auto simp: mon_unlock_id\<close>)
  with r assms show ?thesis
    by (auto simp: run_append replicate7 mon_unlock_id)
qed

lemma mon_get_cancelled:
  assumes "\<not> mon_lock b" "mon_q b = []"
  shows "run (replicate k False @ replicate (7 + n) True) (InMon MC_lock) (Monitor b) =
     (InMon (MC_return None), Monitor b)"
proof -
  obtain p' b' where r: "run (replicate k False) (InMon MC_lock) (Monitor b) = (p', b')"
    by (cases "run (replicate k False) (InMon MC_lock) (Monitor b)")
  let ?I = "\<lambda>p c. ((p = InMon MC_lock \<or> p = InMon MC_wait) \<and> c = Monitor b) \<or>
                  ((p = InMon MC_while \<or> p = InMon MC_stop) \<and>
                   c = Monitor (b\<lparr>mon_lock := True\<rparr>))"
  have "?I p' b'"
    by (rule run_invariant[where I = ?I, OF _ _ r])
       (use assms in \<open>auto simp: mon_unlock_id\<close>)
  with r assms show ?thesis
    by (auto simp: run_append replicate7 mon_unlock_id)
qed

lemma coupled_put_set:
  assumes "coupled m s"
  shows "call_buffer (Put x) (stops (Set_after k n)) (Monitor m) =
           (if int (length (mon_q m)) = mon_capacity m then (PutResult False, Monitor m)
            else (PutResult True, Monitor (m\<lparr>mon_q := mon_q m @ [x]\<rparr>)))"
    and "call_buffer (Put x) (stops (Set_after k n)) (Semaphore s) =
           (if int (length (mon_q m)) = mon_capacity m \<or> \<not> 3 \<le> k then (PutResult False, Semaphore s)
            else (PutResult True,
                  Semaphore (s\<lparr>sem_q := sem_q s @ [x], sem_empty := sem_empty s - 1,
                               sem_full := sem_full s + 1\<rparr>)))"
proof -
  from assms have l: "\<not> mon_lock m" by (simp add: coupled_def)
  show "call_buffer (Put x) (stops (Set_after k n)) (Monitor m) =
           (if int (length (mon_q m)) = mon_capacity m then (PutResult False, Monitor m)
            else (PutResult True, Monitor (m\<lparr>mon_q := mon_q m @ [x]\<rparr>)))"
    using l by (simp add: call_buffer_def mon_put_cancelled mon_put_any3)
  show "call_buffer (Put x) (stops (Set_after k n)) (Semaphore s) =
           (if int (length (mon_q m)) = mon_capacity m \<or> \<not> 3 \<le> k then (PutResult False, Semaphore s)
            else (PutResult True,
                  Semaphore (s\<lparr>sem_q := sem_q s @ [x], sem_empty := sem_empty s - 1,
                               sem_full := sem_full s + 1\<rparr>)))"
  proof (cases "int (length (mon_q m)) = mon_capacity m")
    case True
    with assms have "sem_empty s = 0" by (simp add: coupled_def)
    with True show ?thesis by (simp add: call_buffer_def sem_put_cancelled)
  next
    case False
    with assms have e: "sem_empty s \<noteq> 0" "sem_mutex s \<noteq> 0" by (auto simp: coupled_def)
    with False show ?thesis
      by (simp add: call_buffer_def sem_put_early_stop sem_put_late_stop)
  qed
qed

lemma coupled_get_set:
  assumes "coupled m s"
  shows "call_buffer Get (stops (Set_after k n)) (Monitor m) =
           (case mon_q m of [] \<Rightarrow> (GetResult None, Monitor m)
            | y # ys \<Rightarrow> (GetResult (Some y), Monitor (m\<lparr>mon_q := ys\<rparr>)))"
    and "call_buffer Get (stops (Set_after k n)) (Semaphore s) =
           (case mon_q m of [] \<Rightarrow> (GetResult None, Semaphore s)
            | y # ys \<Rightarrow>
                if \<not> 3 \<le> k then (GetResult None, Semaphore s)
                else (GetResult (Some y),
                      Semaphore (s\<lparr>sem_q := ys, sem_empty := sem_empty s + 1,
                                   sem_full := sem_full s - 1\<rparr>)))"
proof -
  from assms have l: "\<not> mon_lock m" by (simp add: coupled_def)
  show "call_buffer Get (stops (Set_after k n)) (Monitor m) =
           (case mon_q m of [] \<Rightarrow> (GetResult None, Monitor m)
            | y # ys \<Rightarrow> (GetResult (Some y), Monitor (m\<lparr>mon_q := ys\<rparr>)))"
    using l by (simp add: call_buffer_def mon_get_cancelled mon_get_any3 split: list.splits)
  show "call_buffer Get (stops (Set_after k n)) (Semaphore s) =
           (case mon_q m of [] \<Rightarrow> (GetResult None, Semaphore s)
            | y # ys \<Rightarrow>
                if \<not> 3 \<le> k then (GetResult None, Semaphore s)
                else (GetResult (Some y),
                      Semaphore (s\<lparr>sem_q := ys, sem_empty := sem_empty s + 1,
                                   sem_full := sem_full s - 1\<rparr>)))"
  proof (cases "mon_q m")
    case Nil
    with assms have "sem_full s = 0" by (simp add: coupled_def)
    with Nil show ?thesis by (simp add: call_buffer_def sem_get_cancelled)
  next
    case (Cons y ys)
    with assms have e: "sem_full s \<noteq> 0" "sem_mutex s \<noteq> 0" "sem_q s = y # ys"
      by (auto simp: coupled_def)
    with Cons show ?thesis
      by (simp add: call_buffer_def sem_get_early_stop sem_get_late_stop)
  qed
qed

lemma coupled_call_watch:
  assumes "coupled m s"
    and "call_buffer c (stops w) (Monitor m) = (r1, b1)"
    and "call_buffer c (stops w) (Semaphore s) = (r2, b2)"
  shows "(stop_harmless c w (Monitor m) \<longrightarrow>
           r1 = r2 \<and> buf_q b1 = buf_q b2 \<and>
           (r1 \<noteq> InFlight \<longrightarrow> (\<exists>m' s'. b1 = Monitor m' \<and> b2 = Semaphore s' \<and> coupled m' s'))) \<and>
         (\<not> stop_harmless c w (Monitor m) \<longrightarrow> r1 \<noteq> r2 \<and> r1 \<noteq> InFlight \<and> r2 \<noteq> InFlight)"
proof (cases w)
  case (Unset k)
  with coupled_call[OF assms(1), of c k r1 b1 r2 b2] assms(2,3) show ?thesis by simp
next
  case (Set_after k n)
  show ?thesis
  proof (cases c)
    case (Put x)
    from assms(2,3) coupled_put_set[OF assms(1), of x k n] assms(1) show ?thesis
      unfolding Set_after Put
      by (auto simp: coupled_def split: if_splits)
  next
    case Get
    from assms(2,3) coupled_get_set[OF assms(1), of k n] assms(1) show ?thesis
      unfolding Set_after Get
      by (auto simp: coupled_def split: if_splits list.splits)
  qed
qed

lemma coupled_calls:
  "coupled m s \<Longrightarrow>
   (stops_harmless cs (Monitor m) \<longleftrightarrow>
      fst (calls (timed cs) (Monitor m)) = fst (calls (timed cs) (Semaphore s))) \<and>
   (stops_harmless cs (Monitor m) \<longrightarrow>
      buf_q (snd (calls (timed cs) (Monitor m))) = buf_q (snd (calls (timed cs) (Semaphore s))))"
proof (induction cs arbitrary: m s)
  case Nil
  then show ?case by (simp add: timed_def coupled_def)
next
  case (Cons a cs)
  obtain c w where a: "a = (c, w)" by (cases a)
  obtain r1 b1 where 1: "call_buffer c (stops w) (Monitor m) = (r1, b1)"
    by (cases "call_buffer c (stops w) (Monitor m)")
  obtain r2 b2 where 2: "call_buffer c (stops w) (Semaphore s) = (r2, b2)"
    by (cases "call_buffer c (stops w) (Semaphore s)")
  note cc = coupled_call_watch[OF Cons.prems 1 2]
  show ?case
  proof (cases "stop_harmless c w (Monitor m)")
    case h: True
    show ?thesis
    proof (cases "r1 = InFlight")
      case True
      with cc h a 1 2 show ?thesis by (simp add: timed_def)
    next
      case False
      with cc h obtain m' s' where b: "b1 = Monitor m'" "b2 = Semaphore s'" and c': "coupled m' s'"
        by auto
      from Cons.IH[OF c'] a 1 2 cc h False b show ?thesis
        by (cases r1) (auto simp: timed_def split: prod.splits)
    qed
  next
    case False
    with cc have d: "r1 \<noteq> r2" "r1 \<noteq> InFlight" "r2 \<noteq> InFlight" by auto
    from d 1 2 a False show ?thesis
      by (cases r1; cases r2) (auto simp: timed_def split: prod.splits)
  qed
qed

lemma coupled_init: "SemaphoreBuffer_init c = Inr sb \<Longrightarrow> coupled (MonitorBuffer_init c) sb"
  by (auto simp: SemaphoreBuffer_init_def Semaphore_init_def MonitorBuffer_init_def coupled_def
           split: if_splits)


subsection \<open>The two buffers compared\<close>

text \<open>
  C1 (as the code has it). Take any sequence of Put and Get calls made one after another
  on the two buffers, constructed with the same capacity, the stop signal being one-way
  during each call (never set, or unset for some steps and set from then on). The two
  buffers return the same results, call by call (accepted or not, the same item or none,
  or the same call still blocked at the end of its watch), exactly when the stop signal is
  set only during calls that cannot proceed (a Put finding the buffer full, a Get finding
  it empty: both classes give up such a call, with False or None) or only after the first
  three steps of a call, when the call has passed its stop tests. In that case the queue
  contents at the end are the same too. When the stop signal is set earlier in a call
  that can proceed, the results differ at that call.
\<close>

theorem C1_same_results_iff_stop_harmless:
  assumes "SemaphoreBuffer_init c = Inr sb"
  shows "(stops_harmless cs (Monitor (MonitorBuffer_init c)) \<longleftrightarrow>
            fst (calls (timed cs) (Monitor (MonitorBuffer_init c))) =
            fst (calls (timed cs) (Semaphore sb))) \<and>
         (stops_harmless cs (Monitor (MonitorBuffer_init c)) \<longrightarrow>
            buf_q (snd (calls (timed cs) (Monitor (MonitorBuffer_init c)))) =
            buf_q (snd (calls (timed cs) (Semaphore sb))))"
  by (rule coupled_calls) (rule coupled_init[OF assms])

theorem C1_witness:
  "(SemaphoreBuffer_init 1 :: error + string SemaphoreBuffer) =
     Inr \<lparr>sem_capacity = 1, sem_q = [], sem_empty = 1, sem_full = 0, sem_mutex = 1\<rparr> \<and>
   stops_harmless
     [(Put ''A1'', Unset 0), (Put ''A2'', Set_after 2 0), (Get, Set_after 5 1),
      (Get, Set_after 0 0), (Put ''A3'', Set_after 3 0), (Put ''A4'', Unset 2)]
     (Monitor (MonitorBuffer_init 1)) \<and>
   fst (calls (timed
     [(Put ''A1'', Unset 0), (Put ''A2'', Set_after 2 0), (Get, Set_after 5 1),
      (Get, Set_after 0 0), (Put ''A3'', Set_after 3 0), (Put ''A4'', Unset 2)])
     (Monitor (MonitorBuffer_init 1))) =
   fst (calls (timed
     [(Put ''A1'', Unset 0), (Put ''A2'', Set_after 2 0), (Get, Set_after 5 1),
      (Get, Set_after 0 0), (Put ''A3'', Set_after 3 0), (Put ''A4'', Unset 2)])
     (Semaphore \<lparr>sem_capacity = 1, sem_q = [], sem_empty = 1, sem_full = 0, sem_mutex = 1\<rparr>)) \<and>
   fst (calls (timed
     [(Put ''A1'', Unset 0), (Put ''A2'', Set_after 2 0), (Get, Set_after 5 1),
      (Get, Set_after 0 0), (Put ''A3'', Set_after 3 0), (Put ''A4'', Unset 2)])
     (Semaphore \<lparr>sem_capacity = 1, sem_q = [], sem_empty = 1, sem_full = 0, sem_mutex = 1\<rparr>)) =
     [PutResult True, PutResult False, GetResult (Some ''A1''), GetResult None,
      PutResult True, InFlight] \<and>
   buf_q (snd (calls (timed
     [(Put ''A1'', Unset 0), (Put ''A2'', Set_after 2 0), (Get, Set_after 5 1),
      (Get, Set_after 0 0), (Put ''A3'', Set_after 3 0), (Put ''A4'', Unset 2)])
     (Monitor (MonitorBuffer_init 1)))) =
   buf_q (snd (calls (timed
     [(Put ''A1'', Unset 0), (Put ''A2'', Set_after 2 0), (Get, Set_after 5 1),
      (Get, Set_after 0 0), (Put ''A3'', Set_after 3 0), (Put ''A4'', Unset 2)])
     (Semaphore \<lparr>sem_capacity = 1, sem_q = [], sem_empty = 1, sem_full = 0, sem_mutex = 1\<rparr>))) \<and>
   \<not> stops_harmless [(Put ''A1'', Set_after 2 0)] (Monitor (MonitorBuffer_init 1)) \<and>
   fst (calls (timed [(Put ''A1'', Set_after 2 0)]) (Monitor (MonitorBuffer_init 1))) \<noteq>
   fst (calls (timed [(Put ''A1'', Set_after 2 0)])
     (Semaphore \<lparr>sem_capacity = 1, sem_q = [], sem_empty = 1, sem_full = 0, sem_mutex = 1\<rparr>))"
proof -
  have i: "(SemaphoreBuffer_init 1 :: error + string SemaphoreBuffer) =
     Inr \<lparr>sem_capacity = 1, sem_q = [], sem_empty = 1, sem_full = 0, sem_mutex = 1\<rparr>"
    by (simp add: SemaphoreBuffer_init_def Semaphore_init_def)
  have h: "stops_harmless
     [(Put ''A1'', Unset 0), (Put ''A2'', Set_after 2 0), (Get, Set_after 5 1),
      (Get, Set_after 0 0), (Put ''A3'', Set_after 3 0), (Put ''A4'', Unset 2)]
     (Monitor (MonitorBuffer_init 1))"
    by code_simp
  have r: "fst (calls (timed
     [(Put ''A1'', Unset 0), (Put ''A2'', Set_after 2 0), (Get, Set_after 5 1),
      (Get, Set_after 0 0), (Put ''A3'', Set_after 3 0), (Put ''A4'', Unset 2)])
     (Semaphore \<lparr>sem_capacity = 1, sem_q = [], sem_empty = 1, sem_full = 0, sem_mutex = 1\<rparr>)) =
     [PutResult True, PutResult False, GetResult (Some ''A1''), GetResult None,
      PutResult True, InFlight]"
    by code_simp
  have n: "\<not> stops_harmless [(Put ''A1'', Set_after 2 0)] (Monitor (MonitorBuffer_init 1))"
    by code_simp
  from C1_same_results_iff_stop_harmless[OF i,
      of "[(Put ''A1'', Unset 0), (Put ''A2'', Set_after 2 0), (Get, Set_after 5 1),
      (Get, Set_after 0 0), (Put ''A3'', Set_after 3 0), (Put ''A4'', Unset 2)]"]
    C1_same_results_iff_stop_harmless[OF i, of "[(Put ''A1'', Set_after 2 0)]"]
    i h r n
  show ?thesis by blast
qed

text \<open>C1 as stated fails: with the stop signal set, a Put to the empty buffer of capacity 1
  is accepted by the monitor buffer and refused by the semaphore buffer, and the queues
  differ afterwards.\<close>

theorem C1_counterexample:
  "calls [(Put ''A1'', [True, True, True])] (Monitor (MonitorBuffer_init 1)) =
     ([PutResult True], Monitor \<lparr>mon_capacity = 1, mon_q = [''A1''], mon_lock = False\<rparr>) \<and>
   calls [(Put ''A1'', [True, True, True])]
     (Semaphore \<lparr>sem_capacity = 1, sem_q = [], sem_empty = 1, sem_full = 0, sem_mutex = 1\<rparr>) =
     ([PutResult False],
      Semaphore \<lparr>sem_capacity = 1, sem_q = [], sem_empty = 1, sem_full = 0, sem_mutex = 1\<rparr>)"
  by (simp add: call_buffer_def MonitorBuffer_init_def)



section \<open>Several threads: what holds in every reachable state\<close>

lemma weight_update:
  "i < length xs \<Longrightarrow>
   sum_list (map w (xs[i := y])) = sum_list (map w xs) - w (xs ! i) + (w y :: int)"
  by (induction xs arbitrary: i) (auto split: nat.splits)

lemma weight_nonneg: "(\<And>x. 0 \<le> w x) \<Longrightarrow> (0::int) \<le> sum_list (map w xs)"
  by (induction xs) auto

lemma weight_member:
  assumes "\<And>x. 0 \<le> w x"
  shows "i < length xs \<Longrightarrow> w (xs ! i) \<le> (sum_list (map w xs) :: int)"
proof (induction xs arbitrary: i)
  case Nil
  then show ?case by simp
next
  case (Cons a xs)
  show ?case
  proof (cases i)
    case 0
    with weight_nonneg[of w xs] assms show ?thesis by simp
  next
    case (Suc j)
    with Cons.prems have "j < length xs" by simp
    from Cons.IH[OF this] assms[of a] Suc show ?thesis by simp
  qed
qed

lemma weight_two:
  assumes "\<And>x. 0 \<le> w x"
  shows "i < length xs \<Longrightarrow> j < length xs \<Longrightarrow> i \<noteq> j \<Longrightarrow>
         w (xs ! i) + w (xs ! j) \<le> (sum_list (map w xs) :: int)"
proof (induction xs arbitrary: i j)
  case Nil
  then show ?case by simp
next
  case (Cons a xs)
  show ?case
  proof (cases i)
    case 0
    with Cons.prems obtain j' where j: "j = Suc j'" "j' < length xs" by (cases j) auto
    from weight_member[of w j' xs] assms j 0 show ?thesis by simp
  next
    case (Suc i')
    show ?thesis
    proof (cases j)
      case 0
      from weight_member[of w i' xs] assms Suc 0 Cons.prems show ?thesis by simp
    next
      case (Suc j')
      with \<open>i = Suc i'\<close> Cons.prems have "i' < length xs" "j' < length xs" "i' \<noteq> j'" by auto
      from Cons.IH[OF this] assms[of a] Suc \<open>i = Suc i'\<close> show ?thesis by simp
    qed
  qed
qed

lemma outside_weights:
  "outside p \<Longrightarrow>
   filled_in_flight p = 0 \<and> empty_in_flight p = 0 \<and> in_critical p = 0 \<and> holds_lock p = 0"
proof (cases p)
  case Idle
  then show ?thesis by simp
next
  case (InMon q)
  assume "outside p"
  with InMon show ?thesis by (cases q) (auto simp: outside_def)
next
  case (InSem q)
  assume "outside p"
  with InSem show ?thesis by (cases q) (auto simp: outside_def)
qed

lemma enter_weights:
  "filled_in_flight (enter b c) = 0 \<and> empty_in_flight (enter b c) = 0 \<and>
   in_critical (enter b c) = 0 \<and> holds_lock (enter b c) = 0 \<and> \<not> popped_empty (enter b c)"
  by (cases b; cases c) simp_all

lemma sem_step_local:
  assumes "sem_step st p b = Some (p', b')"
    and "0 \<le> sem_empty b" and "0 \<le> sem_full b" and "0 \<le> sem_mutex b"
    and "p = SC_pop \<longrightarrow> sem_q b \<noteq> []" and "\<not> popped_empty (InSem p)"
  shows "0 \<le> sem_empty b' \<and> 0 \<le> sem_full b' \<and> 0 \<le> sem_mutex b' \<and>
     int (length (sem_q b')) - sem_full b' - filled_in_flight (InSem p') =
       int (length (sem_q b)) - sem_full b - filled_in_flight (InSem p) \<and>
     int (length (sem_q b')) + sem_empty b' + empty_in_flight (InSem p') =
       int (length (sem_q b)) + sem_empty b + empty_in_flight (InSem p) \<and>
     sem_mutex b' + in_critical (InSem p') = sem_mutex b + in_critical (InSem p) \<and>
     sem_capacity b' = sem_capacity b \<and> \<not> popped_empty (InSem p')"
proof (cases p)
  case (SC_relmutex r)
  with assms show ?thesis by (cases r) (auto simp: release_def)
next
  case (SC_relempty r)
  with assms show ?thesis by (cases r) (auto simp: release_def)
next
  case SC_pop
  with assms show ?thesis by (cases "sem_q b") (auto simp: release_def)
qed (use assms in \<open>auto simp: acquire_def release_def split: if_splits\<close>)

lemma list_all_update:
  "list_all P xs \<Longrightarrow> P y \<Longrightarrow> list_all P (xs[i := y])"
  using set_update_subset_insert[of xs i y] by (auto simp: list_all_iff)

lemma sem_inv_init:
  "SemaphoreBuffer_init c = Inr sb \<Longrightarrow> sem_inv (system_init (Semaphore sb) n)"
  by (auto simp: SemaphoreBuffer_init_def Semaphore_init_def sem_inv_def system_init_def
                 list_all_length sum_list_replicate split: if_splits)

lemma filled_nonneg: "0 \<le> filled_in_flight p"
  by (cases p rule: filled_in_flight.cases) simp_all

lemma sem_inv_step:
  assumes inv: "sem_inv s" and i: "i < length (sys_threads s)"
    and st: "buf_step (sys_stop s) (sys_threads s ! i) (sys_buffer s) = Some (p', b')"
  shows "sem_inv (s\<lparr>sys_buffer := b', sys_threads := (sys_threads s)[i := p']\<rparr>)"
proof -
  from inv obtain b where b: "sys_buffer s = Semaphore b"
    by (cases "sys_buffer s") (auto simp: sem_inv_def)
  let ?xs = "sys_threads s"
  from st b obtain p q' c' where p: "?xs ! i = InSem p" and p': "p' = InSem q'"
    and b': "b' = Semaphore c'" and ss: "sem_step (sys_stop s) p b = Some (q', c')"
    by (cases "?xs ! i") (auto split: option.splits)
  from inv b have nn: "0 \<le> sem_empty b" "0 \<le> sem_full b" "0 \<le> sem_mutex b"
    and F: "int (length (sem_q b)) = sem_full b + sum_list (map filled_in_flight ?xs)"
    and E: "sem_capacity b = int (length (sem_q b)) + sem_empty b + sum_list (map empty_in_flight ?xs)"
    and M: "sem_mutex b + sum_list (map in_critical ?xs) = 1"
    and D: "list_all (\<lambda>p. \<not> popped_empty p) ?xs"
    by (auto simp: sem_inv_def)
  have fm: "filled_in_flight (?xs ! i) \<le> sum_list (map filled_in_flight ?xs)"
    using i by (intro weight_member filled_nonneg)
  have pop: "p = SC_pop \<longrightarrow> sem_q b \<noteq> []"
    using fm F nn p by auto
  from D i p have np: "\<not> popped_empty (InSem p)" by (auto simp: list_all_length)
  note loc = sem_step_local[OF ss nn pop np]
  have F': "int (length (sem_q c')) = sem_full c' + sum_list (map filled_in_flight (?xs[i := p']))"
    using loc F by (simp add: weight_update[OF i] p p')
  have E': "sem_capacity c' = int (length (sem_q c')) + sem_empty c' + sum_list (map empty_in_flight (?xs[i := p']))"
    using loc E by (simp add: weight_update[OF i] p p')
  have M': "sem_mutex c' + sum_list (map in_critical (?xs[i := p'])) = 1"
    using loc M by (simp add: weight_update[OF i] p p')
  have D': "list_all (\<lambda>p. \<not> popped_empty p) (?xs[i := p'])"
    using loc D by (intro list_all_update) (simp_all add: p')
  from loc F' E' M' D' show ?thesis
    by (simp add: sem_inv_def b')
qed

lemma sem_inv_act: "sem_inv s \<Longrightarrow> sem_inv (act a s)"
proof (cases a)
  case (Call i c)
  assume inv: "sem_inv s"
  show ?thesis
  proof (cases "i < length (sys_threads s) \<and> outside (sys_threads s ! i)")
    case True
    then have i: "i < length (sys_threads s)" and o: "outside (sys_threads s ! i)" by auto
    from inv show ?thesis
      using outside_weights[OF o] enter_weights[of "sys_buffer s" c]
      by (auto simp: Call sem_inv_def weight_update[OF i] list_all_update
               split: buffer.splits)
  next
    case False
    with inv Call show ?thesis by auto
  qed
next
  case (Step i)
  assume inv: "sem_inv s"
  show ?thesis
  proof (cases "i < length (sys_threads s)")
    case True
    show ?thesis
    proof (cases "buf_step (sys_stop s) (sys_threads s ! i) (sys_buffer s)")
      case None
      with inv Step True show ?thesis by simp
    next
      case (Some r)
      obtain p' b' where r: "r = (p', b')" by (cases r)
      from sem_inv_step[OF inv True Some[unfolded r]] Step True Some r show ?thesis by simp
    qed
  next
    case False
    with inv Step show ?thesis by simp
  qed
next
  case (SetStop v)
  assume "sem_inv s"
  with SetStop show ?thesis by (auto simp: sem_inv_def split: buffer.splits)
qed

lemma sem_inv_exec: "sem_inv s \<Longrightarrow> sem_inv (exec as s)"
  by (induction as arbitrary: s) (auto intro: sem_inv_act)

lemma holds_lock_01: "holds_lock p = 0 \<or> holds_lock p = 1"
  by (cases p rule: holds_lock.cases) simp_all

lemma holds_lock_nonneg: "0 \<le> holds_lock p"
  using holds_lock_01[of p] by auto

lemma mon_ready_nonholder: "holds_lock p = 0 \<Longrightarrow> mon_ready b' p = mon_ready b p"
  by (cases "(b, p)" rule: mon_ready.cases) simp_all

lemma mon_ready_same_queue:
  "mon_q b' = mon_q b \<Longrightarrow> mon_capacity b' = mon_capacity b \<Longrightarrow> mon_ready b' p = mon_ready b p"
  by (cases "(b, p)" rule: mon_ready.cases) simp_all

lemma mon_ready_enter: "mon_ready b (enter b0 c)"
  by (cases b0; cases c) simp_all

lemma mon_step_local:
  assumes "mon_step st p b = Some (p', b')"
    and "holds_lock (InMon p) = 1 \<longrightarrow> mon_lock b"
    and "mon_ready b (InMon p)"
    and "int (length (mon_q b)) \<le> mon_capacity b"
  shows "(if mon_lock b' then 1 else 0) - holds_lock (InMon p') =
           (if mon_lock b then 1 else (0::int)) - holds_lock (InMon p) \<and>
         int (length (mon_q b')) \<le> mon_capacity b' \<and>
         mon_capacity b' = mon_capacity b \<and>
         mon_ready b' (InMon p') \<and>
         (holds_lock (InMon p) = 0 \<longrightarrow> mon_q b' = mon_q b)"
  using assms by (cases p) (auto split: if_splits list.splits)

lemma mon_inv_init: "0 \<le> c \<Longrightarrow> mon_inv (system_init (Monitor (MonitorBuffer_init c)) n)"
  by (auto simp: MonitorBuffer_init_def mon_inv_def system_init_def list_all_length
                 sum_list_replicate)

lemma mon_inv_step:
  assumes inv: "mon_inv s" and i: "i < length (sys_threads s)"
    and st: "buf_step (sys_stop s) (sys_threads s ! i) (sys_buffer s) = Some (p', b')"
  shows "mon_inv (s\<lparr>sys_buffer := b', sys_threads := (sys_threads s)[i := p']\<rparr>)"
proof -
  from inv obtain b where b: "sys_buffer s = Monitor b"
    by (cases "sys_buffer s") (auto simp: mon_inv_def)
  let ?xs = "sys_threads s"
  from st b obtain p q' c' where p: "?xs ! i = InMon p" and p': "p' = InMon q'"
    and b': "b' = Monitor c'" and ss: "mon_step (sys_stop s) p b = Some (q', c')"
    by (cases "?xs ! i") (auto split: option.splits)
  from inv b have L: "(if mon_lock b then 1 else 0) = sum_list (map holds_lock ?xs)"
    and B: "int (length (mon_q b)) \<le> mon_capacity b"
    and R: "list_all (mon_ready b) ?xs"
    by (auto simp: mon_inv_def)
  have hm: "holds_lock (?xs ! i) \<le> sum_list (map holds_lock ?xs)"
    using i by (intro weight_member holds_lock_nonneg)
  have lk: "holds_lock (InMon p) = 1 \<longrightarrow> mon_lock b"
    using hm L p by (auto split: if_splits)
  from R i p have rp: "mon_ready b (InMon p)" by (auto simp: list_all_length)
  note loc = mon_step_local[OF ss lk rp B]
  have L': "(if mon_lock c' then 1 else 0) = sum_list (map holds_lock (?xs[i := p']))"
    using loc L by (simp add: weight_update[OF i] p p')
  have others: "mon_ready c' (?xs ! j)" if j: "j < length ?xs" and ne: "j \<noteq> i" for j
  proof (cases "holds_lock (InMon p) = 0")
    case True
    with loc have "mon_q c' = mon_q b" "mon_capacity c' = mon_capacity b" by auto
    from mon_ready_same_queue[OF this] R j show ?thesis by (auto simp: list_all_length)
  next
    case False
    with holds_lock_01[of "InMon p"] have h: "holds_lock (?xs ! i) = 1" by (simp add: p)
    have "holds_lock (?xs ! i) + holds_lock (?xs ! j) \<le> sum_list (map holds_lock ?xs)"
      using i j ne by (intro weight_two holds_lock_nonneg) auto
    with h L holds_lock_01[of "?xs ! j"] have "holds_lock (?xs ! j) = 0"
      by (auto split: if_splits)
    from mon_ready_nonholder[OF this] R j show ?thesis by (auto simp: list_all_length)
  qed
  have R': "list_all (mon_ready c') (?xs[i := p'])"
    unfolding list_all_length
  proof (intro allI impI)
    fix j assume "j < length (?xs[i := p'])"
    then have j: "j < length ?xs" by simp
    show "mon_ready c' (?xs[i := p'] ! j)"
    proof (cases "j = i")
      case True
      with loc i show ?thesis by (simp add: p')
    next
      case False
      with others[OF j False] show ?thesis by simp
    qed
  qed
  from loc L' R' show ?thesis
    by (simp add: mon_inv_def b')
qed

lemma mon_inv_act: "mon_inv s \<Longrightarrow> mon_inv (act a s)"
proof (cases a)
  case (Call i c)
  assume inv: "mon_inv s"
  show ?thesis
  proof (cases "i < length (sys_threads s) \<and> outside (sys_threads s ! i)")
    case True
    then have i: "i < length (sys_threads s)" and o: "outside (sys_threads s ! i)" by auto
    from inv show ?thesis
      using outside_weights[OF o] enter_weights[of "sys_buffer s" c]
      by (auto simp: Call mon_inv_def weight_update[OF i] mon_ready_enter
               intro!: list_all_update split: buffer.splits)
  next
    case False
    with inv Call show ?thesis by auto
  qed
next
  case (Step i)
  assume inv: "mon_inv s"
  show ?thesis
  proof (cases "i < length (sys_threads s)")
    case True
    show ?thesis
    proof (cases "buf_step (sys_stop s) (sys_threads s ! i) (sys_buffer s)")
      case None
      with inv Step True show ?thesis by simp
    next
      case (Some r)
      obtain p' b' where r: "r = (p', b')" by (cases r)
      from mon_inv_step[OF inv True Some[unfolded r]] Step True Some r show ?thesis by simp
    qed
  next
    case False
    with inv Step show ?thesis by simp
  qed
next
  case (SetStop v)
  assume "mon_inv s"
  with SetStop show ?thesis by (auto simp: mon_inv_def split: buffer.splits)
qed

lemma mon_inv_exec: "mon_inv s \<Longrightarrow> mon_inv (exec as s)"
  by (induction as arbitrary: s) (auto intro: mon_inv_act)

lemma buf_step_capacity: "buf_step st p b = Some (p', b') \<Longrightarrow> buf_capacity b' = buf_capacity b"
proof (cases p)
  case Idle
  assume "buf_step st p b = Some (p', b')"
  with Idle show ?thesis by simp
next
  case (InMon q)
  assume "buf_step st p b = Some (p', b')"
  with InMon show ?thesis
    by (cases b; cases q) (auto split: if_splits list.splits option.splits)
next
  case (InSem q)
  assume "buf_step st p b = Some (p', b')"
  with InSem show ?thesis
    by (cases b; cases q) (auto simp: acquire_def split: if_splits list.splits option.splits)
qed

lemma act_capacity: "buf_capacity (sys_buffer (act a s)) = buf_capacity (sys_buffer s)"
  by (cases a) (auto split: option.splits dest: buf_step_capacity)

lemma exec_capacity: "buf_capacity (sys_buffer (exec as s)) = buf_capacity (sys_buffer s)"
  by (induction as arbitrary: s) (simp_all add: act_capacity)

lemma empty_nonneg: "0 \<le> empty_in_flight p"
  by (cases p rule: empty_in_flight.cases) simp_all

lemma mon_ready_not_popped: "mon_ready b p \<Longrightarrow> \<not> popped_empty p"
  by (cases "(b, p)" rule: mon_ready.cases) simp_all

lemma mon_inv_bound:
  assumes "mon_inv s"
  shows "int (length (buf_q (sys_buffer s))) \<le> buf_capacity (sys_buffer s) \<and>
         list_all (\<lambda>p. \<not> popped_empty p) (sys_threads s)"
  using assms
  by (auto simp: mon_inv_def list_all_iff split: buffer.splits dest: mon_ready_not_popped)

lemma sem_inv_bound:
  assumes "sem_inv s"
  shows "int (length (buf_q (sys_buffer s))) \<le> buf_capacity (sys_buffer s) \<and>
         list_all (\<lambda>p. \<not> popped_empty p) (sys_threads s)"
proof -
  have "0 \<le> sum_list (map empty_in_flight (sys_threads s))"
    by (intro weight_nonneg empty_nonneg)
  with assms show ?thesis
    by (auto simp: sem_inv_def split: buffer.splits)
qed

lemma quiescent_weights:
  "list_all outside xs \<Longrightarrow>
   sum_list (map filled_in_flight xs) = 0 \<and> sum_list (map empty_in_flight xs) = 0"
  by (induction xs) (auto dest: outside_weights)


subsection \<open>The capacity bound\<close>

text \<open>
  C4. For a buffer of either class constructed with a positive capacity, any number of
  threads, and any interleaving of their calls and steps with any setting and clearing of
  the stop signal: in every state reached the length of the queue is at least 0 and at
  most the capacity, which stays the one given at construction; and no thread has ever
  popped from an empty queue (no \<^verbatim>\<open>IndexError\<close> in the monitor buffer, no pass
  through the empty-queue branch in the semaphore buffer), so every Get that returned an
  item took it from a non-empty queue.
\<close>

theorem C4_length_within_capacity:
  assumes "0 < c" and "new_buffer mode c = Inr b" and "s = exec as (system_init b n)"
  shows "0 \<le> int (length (buf_q (sys_buffer s))) \<and>
         int (length (buf_q (sys_buffer s))) \<le> c \<and>
         buf_capacity (sys_buffer s) = c \<and>
         list_all (\<lambda>p. \<not> popped_empty p) (sys_threads s)"
proof -
  have cap: "buf_capacity (sys_buffer s) = c"
    using assms(2,3)
    by (auto simp: exec_capacity system_init_def new_buffer_def MonitorBuffer_init_def
          SemaphoreBuffer_init_def Semaphore_init_def split: if_splits)
  show ?thesis
  proof (cases "mode = ''Monitor''")
    case True
    with assms(2) have "b = Monitor (MonitorBuffer_init c)" by (simp add: new_buffer_def)
    with assms(1) have "mon_inv (system_init b n)" by (simp add: mon_inv_init)
    then have "mon_inv s" unfolding assms(3) by (rule mon_inv_exec)
    from mon_inv_bound[OF this] cap show ?thesis by simp
  next
    case False
    with assms(2) obtain sb where "SemaphoreBuffer_init c = Inr sb" "b = Semaphore sb"
      by (auto simp: new_buffer_def split: sum.splits)
    then have "sem_inv (system_init b n)" by (simp add: sem_inv_init)
    then have "sem_inv s" unfolding assms(3) by (rule sem_inv_exec)
    from sem_inv_bound[OF this] cap show ?thesis by simp
  qed
qed

theorem C4_witness:
  "(0::int) < 1 \<and>
   (new_buffer ''Monitor'' 1 :: error + string buffer) = Inr (Monitor (MonitorBuffer_init 1)) \<and>
   0 \<le> int (length (buf_q (sys_buffer (exec
       [Call 0 (Put ''A1''), Step 0, Step 0, Step 0, Call 1 (Put ''A2''), Step 1, Step 1, Step 1,
        SetStop True, Step 1]
       (system_init (Monitor (MonitorBuffer_init 1)) 2))))) \<and>
   int (length (buf_q (sys_buffer (exec
       [Call 0 (Put ''A1''), Step 0, Step 0, Step 0, Call 1 (Put ''A2''), Step 1, Step 1, Step 1,
        SetStop True, Step 1]
       (system_init (Monitor (MonitorBuffer_init 1)) 2))))) \<le> 1"
proof -
  have n: "(new_buffer ''Monitor'' 1 :: error + string buffer) = Inr (Monitor (MonitorBuffer_init 1))"
    by (simp add: new_buffer_def)
  have p: "(0::int) < 1" by simp
  from C4_length_within_capacity[OF p n refl] n p show ?thesis by blast
qed

subsection \<open>The permits of the semaphore buffer\<close>

text \<open>
  C5 (as the code has it). For a semaphore buffer constructed with capacity \<open>c\<close>, in
  every state reached by any interleaving: the empty-slot permits available, the
  filled-slot permits available and the permits that threads inside a call hold or owe
  add up to \<open>c\<close>; the length of the queue is not part of this sum. So after every
  completed Put or Get, when no call is in progress, also after the early returns that
  give a permit back, the available empty-slot and filled-slot permits add up to \<open>c\<close>
  and the filled-slot permits equal the length of the queue.
\<close>

theorem C5_permits_conserved:
  assumes "SemaphoreBuffer_init c = Inr sb" and "s = exec as (system_init (Semaphore sb) n)"
  shows "\<exists>b. sys_buffer s = Semaphore b \<and>
           sem_empty b + sem_full b + sum_list (map empty_in_flight (sys_threads s)) +
             sum_list (map filled_in_flight (sys_threads s)) = c \<and>
           (quiescent s \<longrightarrow>
              sem_empty b + sem_full b = c \<and> sem_full b = int (length (sem_q b)))"
proof -
  from assms(1) have "sem_inv (system_init (Semaphore sb) n)" by (rule sem_inv_init)
  then have inv: "sem_inv s" unfolding assms(2) by (rule sem_inv_exec)
  have "buf_capacity (sys_buffer s) = c"
    using assms
    by (auto simp: exec_capacity system_init_def SemaphoreBuffer_init_def Semaphore_init_def
             split: if_splits)
  with inv show ?thesis
    by (auto simp: sem_inv_def quiescent_def split: buffer.splits dest: quiescent_weights)
qed

theorem C5_witness:
  "(SemaphoreBuffer_init 1 :: error + string SemaphoreBuffer) =
     Inr \<lparr>sem_capacity = 1, sem_q = [], sem_empty = 1, sem_full = 0, sem_mutex = 1\<rparr> \<and>
   quiescent (exec [Call 0 (Put ''A1''), Step 0, Step 0, SetStop True, Step 0, Step 0]
     (system_init (Semaphore \<lparr>sem_capacity = 1, sem_q = [], sem_empty = 1, sem_full = 0,
        sem_mutex = 1\<rparr>) 1)) \<and>
   (\<exists>b. sys_buffer (exec [Call 0 (Put ''A1''), Step 0, Step 0, SetStop True, Step 0, Step 0]
     (system_init (Semaphore \<lparr>sem_capacity = 1, sem_q = [], sem_empty = 1, sem_full = 0,
        sem_mutex = 1\<rparr>) 1)) = Semaphore b \<and> sem_empty b + sem_full b = 1 \<and>
        sem_full b = int (length (sem_q b)))"
proof -
  let ?sb = "\<lparr>sem_capacity = 1, sem_q = [], sem_empty = 1, sem_full = 0, sem_mutex = 1\<rparr> :: string SemaphoreBuffer"
  define s where "s = exec [Call 0 (Put ''A1''), Step 0, Step 0, SetStop True, Step 0, Step 0]
     (system_init (Semaphore ?sb) 1)"
  have i: "SemaphoreBuffer_init 1 = Inr ?sb"
    by (simp add: SemaphoreBuffer_init_def Semaphore_init_def)
  have e: "s = \<lparr>sys_buffer = Semaphore ?sb, sys_stop = True, sys_threads = [InSem (SP_return False)]\<rparr>"
    unfolding s_def by code_simp
  have q: "quiescent s"
    unfolding e by (simp add: quiescent_def outside_def)
  from C5_permits_conserved[OF i s_def] q i show ?thesis
    unfolding s_def[symmetric] by blast
qed

text \<open>C5 as stated fails: after one completed Put on a buffer of capacity 1 the empty-slot
  permits, the filled-slot permits and the queue length add up to 2.\<close>

theorem C5_counterexample:
  "exec [Call 0 (Put ''A1''), Step 0, Step 0, Step 0, Step 0, Step 0, Step 0, Step 0]
     (system_init (Semaphore \<lparr>sem_capacity = 1, sem_q = [], sem_empty = 1, sem_full = 0,
        sem_mutex = 1\<rparr>) 1) =
   \<lparr>sys_buffer = Semaphore \<lparr>sem_capacity = 1, sem_q = [''A1''], sem_empty = 0, sem_full = 1,
        sem_mutex = 1\<rparr>,
    sys_stop = False, sys_threads = [InSem (SP_return True)]\<rparr> \<and>
   sem_empty \<lparr>sem_capacity = 1, sem_q = [''A1''], sem_empty = 0, sem_full = 1, sem_mutex = 1\<rparr> +
   sem_full \<lparr>sem_capacity = 1, sem_q = [''A1''], sem_empty = 0, sem_full = 1, sem_mutex = 1\<rparr> +
   int (length (sem_q \<lparr>sem_capacity = 1, sem_q = [''A1''], sem_empty = 0, sem_full = 1,
        sem_mutex = 1\<rparr>)) = 2"
  by code_simp

subsection \<open>The empty-queue branch of consume\<close>



subsection \<open>First in, first out\<close>

text \<open>The queue changes only by an item appended at its end or the item at its head
  removed.\<close>

lemma appends_append [simp]: "appends (xs @ ys) = appends xs @ appends ys"
  by (induction xs rule: appends.induct) auto

lemma removes_append [simp]: "removes (xs @ ys) = removes xs @ removes ys"
  by (induction xs rule: removes.induct) auto

lemma return_obs_items [simp]: "appends (return_obs i p) = []" "removes (return_obs i p) = []"
  by (auto simp: return_obs_def)

lemma q_obs_same [simp]: "q_obs i q q = []"
  by (simp add: q_obs_def)

lemma q_obs_append [simp]: "q_obs i q (q @ [x]) = [Append i x]"
  by (simp add: q_obs_def)

lemma q_obs_pop [simp]: "q_obs i (y # ys) ys = [Remove i y]"
  by (simp add: q_obs_def)

lemma mon_step_queue:
  "mon_step st p b = Some (p', b') \<Longrightarrow>
   mon_q b' = mon_q b \<or> (\<exists>x. mon_q b' = mon_q b @ [x]) \<or> (\<exists>y. mon_q b = y # mon_q b')"
  by (cases p) (auto split: if_splits list.splits)

lemma sem_step_queue:
  "sem_step st p b = Some (p', b') \<Longrightarrow>
   sem_q b' = sem_q b \<or> (\<exists>x. sem_q b' = sem_q b @ [x]) \<or> (\<exists>y. sem_q b = y # sem_q b')"
  by (cases p) (auto simp: acquire_def split: if_splits list.splits)

lemma buf_step_queue:
  "buf_step st p b = Some (p', b') \<Longrightarrow>
   buf_q b' = buf_q b \<or> (\<exists>x. buf_q b' = buf_q b @ [x]) \<or> (\<exists>y. buf_q b = y # buf_q b')"
  by (cases b; cases p) (auto split: option.splits dest: mon_step_queue sem_step_queue)

lemma buf_step_fifo:
  assumes "buf_step st p b = Some (p', b')"
  shows "buf_q b @ appends (q_obs i (buf_q b) (buf_q b')) = removes (q_obs i (buf_q b) (buf_q b')) @ buf_q b'"
  using buf_step_queue[OF assms]
proof (elim disjE exE)
  fix y assume "buf_q b = y # buf_q b'"
  then show ?thesis by (metis q_obs_pop appends.simps removes.simps append_Cons append_Nil append_Nil2)
qed auto

lemma observe_fifo:
  "buf_q (sys_buffer s) @ appends (observe a s) = removes (observe a s) @ buf_q (sys_buffer (act a s))"
proof (cases a)
  case (Step i)
  show ?thesis
  proof (cases "i < length (sys_threads s)")
    case True
    show ?thesis
    proof (cases "buf_step (sys_stop s) (sys_threads s ! i) (sys_buffer s)")
      case None
      with Step True show ?thesis by simp
    next
      case (Some r)
      obtain p' b' where r: "r = (p', b')" by (cases r)
      from buf_step_fifo[OF Some[unfolded r], of i] Step True Some r show ?thesis by simp
    qed
  qed (simp add: Step)
qed auto

lemma history_fifo:
  "buf_q (sys_buffer s) @ appends (history as s) =
   removes (history as s) @ buf_q (sys_buffer (exec as s))"
proof (induction as arbitrary: s)
  case Nil
  show ?case by simp
next
  case (Cons a as)
  have "buf_q (sys_buffer s) @ appends (history (a # as) s) =
        (buf_q (sys_buffer s) @ appends (observe a s)) @ appends (history as (act a s))"
    by simp
  also have "\<dots> = removes (observe a s) @ (buf_q (sys_buffer (act a s)) @ appends (history as (act a s)))"
    by (simp only: observe_fifo append_assoc)
  also have "\<dots> = removes (observe a s) @ removes (history as (act a s)) @ buf_q (sys_buffer (exec as (act a s)))"
    by (simp only: Cons.IH)
  finally show ?case by simp
qed

text \<open>Each thread's observations follow its calls.\<close>

lemma tracks_append:
  "tracks ph (xs @ ys) = (case tracks ph xs of None \<Rightarrow> None | Some ph' \<Rightarrow> tracks ph' ys)"
  by (induction xs arbitrary: ph) (auto split: option.splits)

lemma of_thread_append [simp]: "of_thread i (xs @ ys) = of_thread i xs @ of_thread i ys"
  by (simp add: of_thread_def)

lemma of_thread_Nil [simp]: "of_thread i [] = []"
  by (simp add: of_thread_def)

lemma of_thread_q_obs [simp]:
  "of_thread i (q_obs j q q') = (if i = j then q_obs j q q' else [])"
  by (auto simp: of_thread_def q_obs_def)

lemma of_thread_return_obs [simp]:
  "of_thread i (return_obs j p) = (if i = j then return_obs j p else [])"
  by (auto simp: of_thread_def return_obs_def)

lemma at_phase_outside: "at_phase ph p \<Longrightarrow> outside p \<Longrightarrow> ph = Out"
  by (cases "(ph, p)" rule: at_phase.cases) (auto simp: outside_def)

lemma at_phase_enter: "at_phase (Before c) (enter b c)"
  by (cases b; cases c) auto

lemma mon_step_tracks:
  assumes "at_phase ph (InMon p)" and "mon_step st p b = Some (p', b')"
  shows "\<exists>ph'. tracks ph (q_obs i (mon_q b) (mon_q b') @ return_obs i (InMon p')) = Some ph' \<and>
               at_phase ph' (InMon p')"
  using assms
  by (cases "(ph, InMon p :: 'a pc)" rule: at_phase.cases; cases p)
     (auto simp: return_obs_def outside_def split: if_splits list.splits)

lemma sem_step_tracks:
  assumes "at_phase ph (InSem p)" and "sem_step st p b = Some (p', b')"
  shows "\<exists>ph'. tracks ph (q_obs i (sem_q b) (sem_q b') @ return_obs i (InSem p')) = Some ph' \<and>
               at_phase ph' (InSem p')"
  using assms
  by (cases "(ph, InSem p :: 'a pc)" rule: at_phase.cases; cases p)
     (auto simp: return_obs_def outside_def acquire_def split: if_splits list.splits)

lemma buf_step_tracks:
  assumes "at_phase ph p" and "buf_step st p b = Some (p', b')"
  shows "\<exists>ph'. tracks ph (q_obs i (buf_q b) (buf_q b') @ return_obs i p') = Some ph' \<and>
               at_phase ph' p'"
proof (cases b)
  case (Monitor m)
  with assms(2) obtain q q' m' where "p = InMon q" "p' = InMon q'" "b' = Monitor m'"
    "mon_step st q m = Some (q', m')"
    by (cases p) (auto split: option.splits)
  with mon_step_tracks[of ph q st m q' m' i] assms(1) Monitor show ?thesis by simp
next
  case (Semaphore m)
  with assms(2) obtain q q' m' where "p = InSem q" "p' = InSem q'" "b' = Semaphore m'"
    "sem_step st q m = Some (q', m')"
    by (cases p) (auto split: option.splits)
  with sem_step_tracks[of ph q st m q' m' i] assms(1) Semaphore show ?thesis by simp
qed

lemma act_length [simp]: "length (sys_threads (act a s)) = length (sys_threads s)"
  by (cases a) (auto split: option.splits)

lemma observe_tracks:
  assumes "i < length (sys_threads s)" and "at_phase ph (sys_threads s ! i)"
  shows "\<exists>ph'. tracks ph (of_thread i (observe a s)) = Some ph' \<and>
               at_phase ph' (sys_threads (act a s) ! i)"
proof (cases a)
  case (Call j c)
  show ?thesis
  proof (cases "j = i \<and> outside (sys_threads s ! i)")
    case True
    with at_phase_outside[OF assms(2)] have "ph = Out" by simp
    with True assms Call show ?thesis
      by (simp add: of_thread_def at_phase_enter)
  next
    case False
    with assms Call show ?thesis by (auto simp: of_thread_def)
  qed
next
  case (Step j)
  show ?thesis
  proof (cases "j = i")
    case True
    show ?thesis
    proof (cases "buf_step (sys_stop s) (sys_threads s ! i) (sys_buffer s)")
      case None
      with assms Step True show ?thesis by simp
    next
      case (Some r)
      obtain p' b' where r: "r = (p', b')" by (cases r)
      from buf_step_tracks[OF assms(2) Some[unfolded r], of i] assms Step True Some r
      show ?thesis by simp
    qed
  next
    case False
    with assms Step show ?thesis by (auto split: option.splits)
  qed
next
  case (SetStop v)
  with assms show ?thesis by simp
qed

lemma history_tracks:
  "i < length (sys_threads s) \<Longrightarrow> at_phase ph (sys_threads s ! i) \<Longrightarrow>
   \<exists>ph'. tracks ph (of_thread i (history as s)) = Some ph' \<and>
         at_phase ph' (sys_threads (exec as s) ! i)"
proof (induction as arbitrary: s ph)
  case Nil
  then show ?case by simp
next
  case (Cons a as)
  from observe_tracks[OF Cons.prems, of a] obtain ph1 where
    1: "tracks ph (of_thread i (observe a s)) = Some ph1" and
    2: "at_phase ph1 (sys_threads (act a s) ! i)" by blast
  from Cons.prems(1) have "i < length (sys_threads (act a s))" by simp
  from Cons.IH[OF this 2] 1 show ?case by (simp add: tracks_append)
qed

lemma observe_thread: "thread_of e < length (sys_threads s)" if "e \<in> set (observe a s)"
proof (cases a)
  case (Step j)
  show ?thesis
  proof (cases "j < length (sys_threads s)")
    case True
    show ?thesis
    proof (cases "buf_step (sys_stop s) (sys_threads s ! j) (sys_buffer s)")
      case None
      with that Step True show ?thesis by simp
    next
      case (Some r)
      obtain p' b' where r: "r = (p', b')" by (cases r)
      from that Step True Some r have "e \<in> set (q_obs j (buf_q (sys_buffer s)) (buf_q b')) \<or> e \<in> set (return_obs j p')"
        by simp
      then have "thread_of e = j"
        by (auto simp: q_obs_def return_obs_def split: if_splits)
      with True show ?thesis by simp
    qed
  next
    case False
    with that Step show ?thesis by simp
  qed
next
  case (Call j c)
  with that show ?thesis by (auto split: if_splits)
next
  case (SetStop v)
  with that show ?thesis by simp
qed

lemma history_thread: "e \<in> set (history as s) \<Longrightarrow> thread_of e < length (sys_threads s)"
proof (induction as arbitrary: s)
  case Nil
  then show ?case by simp
next
  case (Cons a as)
  then show ?case using observe_thread[of e a s] by fastforce
qed

lemma history_accounted:
  assumes "quiescent s"
  shows "accounted i (history as s)"
proof (cases "i < length (sys_threads s)")
  case True
  with assms have "at_phase Out (sys_threads s ! i)"
    by (simp add: quiescent_def list_all_length)
  from history_tracks[OF True this, of as] show ?thesis by (auto simp: accounted_def)
next
  case False
  have "of_thread i (history as s) = []"
    unfolding of_thread_def filter_empty_conv using history_thread[of _ as s] False by auto
  then show ?thesis by (simp add: accounted_def)
qed

text \<open>
  C3. For both buffers: (1) for every sequence of calls by one caller that have all
  returned, under any stop patterns and from any buffer, the queue at the start followed
  by the items of the accepted Puts, in call order, is the items the Gets returned, in
  call order, followed by the queue at the end. (2) For any number of threads calling and
  stepping in any order, with any changes of the stop signal, from any state: the queue at
  the start followed by the items appended, in the order they were appended, is the items
  removed, in the order they were removed, followed by the queue at the end; so items
  leave in the exact order they were appended, across all producers, none twice, none
  lost. (3) From a state with no call in progress, in every thread each Put that returns
  True has appended the item passed to it, once, each Get that returns an item has removed
  that item, once, and a call that is cancelled or fails has not changed the queue. A
  cancelled call changes nothing, so the statement needs no exception for cancellation.
\<close>

theorem C3_fifo:
  "(calls cs b = (rs, b') \<and> InFlight \<notin> set rs \<longrightarrow>
      buf_q b @ accepted cs rs = returned rs @ buf_q b') \<and>
   buf_q (sys_buffer s) @ appends (history as s) =
     removes (history as s) @ buf_q (sys_buffer (exec as s)) \<and>
   (quiescent s \<longrightarrow> accounted i (history as s))"
  using calls_fifo[of cs b rs b'] history_fifo[of s as] history_accounted[of s i as]
  by blast

theorem C3_witness:
  "calls fifo_calls
     (Semaphore \<lparr>sem_capacity = 2, sem_q = [], sem_empty = 2, sem_full = 0, sem_mutex = 1\<rparr>) =
     ([PutResult True, PutResult True, PutResult False, GetResult (Some ''A1''),
       PutResult True, GetResult (Some ''A2'')],
      Semaphore \<lparr>sem_capacity = 2, sem_q = [''A4''], sem_empty = 1, sem_full = 1, sem_mutex = 1\<rparr>) \<and>
   calls fifo_calls (Monitor (MonitorBuffer_init 2)) =
     ([PutResult True, PutResult True, PutResult False, GetResult (Some ''A1''),
       PutResult True, GetResult (Some ''A2'')],
      Monitor \<lparr>mon_capacity = 2, mon_q = [''A4''], mon_lock = False\<rparr>) \<and>
   InFlight \<notin> set [PutResult True, PutResult True, PutResult False, GetResult (Some ''A1''),
       PutResult True, GetResult (Some ''A2'')] \<and>
   accepted fifo_calls [PutResult True, PutResult True, PutResult False, GetResult (Some ''A1''),
       PutResult True, GetResult (Some ''A2'')] = [''A1'', ''A2'', ''A4''] \<and>
   returned [PutResult True, PutResult True, PutResult False, GetResult (Some ''A1''),
       PutResult True, GetResult (Some ''A2'')] = [''A1'', ''A2''] \<and>
   [] @ accepted fifo_calls [PutResult True, PutResult True, PutResult False,
       GetResult (Some ''A1''), PutResult True, GetResult (Some ''A2'')] =
     returned [PutResult True, PutResult True, PutResult False, GetResult (Some ''A1''),
       PutResult True, GetResult (Some ''A2'')] @ [''A4''] \<and>
   quiescent (system_init
     (Semaphore \<lparr>sem_capacity = 2, sem_q = [], sem_empty = 2, sem_full = 0, sem_mutex = 1\<rparr>) 3
     :: string system) \<and>
   history fifo_sem_schedule (system_init
     (Semaphore \<lparr>sem_capacity = 2, sem_q = [], sem_empty = 2, sem_full = 0, sem_mutex = 1\<rparr>) 3) =
     [Invoke 0 (Put ''A1''), Invoke 1 (Put ''B1''), Invoke 2 Get,
      Append 1 ''B1'', Return 1 (PutResult True), Append 0 ''A1'', Return 0 (PutResult True),
      Invoke 1 (Put ''B2''), Return 1 (PutResult False),
      Remove 2 ''B1'', Return 2 (GetResult (Some ''B1'')),
      Invoke 2 Get, Remove 2 ''A1'', Return 2 (GetResult (Some ''A1''))] \<and>
   buf_q (sys_buffer (exec fifo_sem_schedule (system_init
     (Semaphore \<lparr>sem_capacity = 2, sem_q = [], sem_empty = 2, sem_full = 0, sem_mutex = 1\<rparr>) 3))) = [] \<and>
   [] @ appends (history fifo_sem_schedule (system_init
     (Semaphore \<lparr>sem_capacity = 2, sem_q = [], sem_empty = 2, sem_full = 0, sem_mutex = 1\<rparr>) 3)) =
     removes (history fifo_sem_schedule (system_init
     (Semaphore \<lparr>sem_capacity = 2, sem_q = [], sem_empty = 2, sem_full = 0, sem_mutex = 1\<rparr>) 3)) @ [] \<and>
   accounted 1 (history fifo_sem_schedule (system_init
     (Semaphore \<lparr>sem_capacity = 2, sem_q = [], sem_empty = 2, sem_full = 0, sem_mutex = 1\<rparr>) 3)) \<and>
   quiescent (system_init (Monitor (MonitorBuffer_init 2)) 3 :: string system) \<and>
   history fifo_mon_schedule (system_init (Monitor (MonitorBuffer_init 2)) 3) =
     [Invoke 0 (Put ''A1''), Invoke 1 (Put ''B1''), Invoke 2 Get,
      Append 1 ''B1'', Return 1 (PutResult True), Append 0 ''A1'', Return 0 (PutResult True),
      Remove 2 ''B1'', Return 2 (GetResult (Some ''B1'')),
      Invoke 1 (Put ''B2''), Append 1 ''B2'', Return 1 (PutResult True),
      Invoke 1 (Put ''B3''), Return 1 (PutResult False),
      Invoke 2 Get, Remove 2 ''A1'', Return 2 (GetResult (Some ''A1''))] \<and>
   buf_q (sys_buffer (exec fifo_mon_schedule (system_init (Monitor (MonitorBuffer_init 2)) 3))) =
     [''B2''] \<and>
   [] @ appends (history fifo_mon_schedule (system_init (Monitor (MonitorBuffer_init 2)) 3)) =
     removes (history fifo_mon_schedule (system_init (Monitor (MonitorBuffer_init 2)) 3)) @ [''B2''] \<and>
   accounted 2 (history fifo_mon_schedule (system_init (Monitor (MonitorBuffer_init 2)) 3))"
proof -
  let ?sb = "Semaphore \<lparr>sem_capacity = 2, sem_q = [], sem_empty = 2, sem_full = 0, sem_mutex = 1\<rparr>
               :: string buffer"
  let ?mb = "Monitor (MonitorBuffer_init 2) :: string buffer"
  let ?rs = "[PutResult True, PutResult True, PutResult False, GetResult (Some ''A1''),
       PutResult True, GetResult (Some ''A2'')] :: string outcome list"
  let ?sb' = "Semaphore \<lparr>sem_capacity = 2, sem_q = [''A4''], sem_empty = 1, sem_full = 1,
       sem_mutex = 1\<rparr>"
  let ?mb' = "Monitor \<lparr>mon_capacity = 2, mon_q = [''A4''], mon_lock = False\<rparr>"
  have cs: "calls fifo_calls ?sb = (?rs, ?sb')" by code_simp
  have cm: "calls fifo_calls ?mb = (?rs, ?mb')" by code_simp
  have n: "InFlight \<notin> set ?rs" by simp
  have a: "accepted fifo_calls ?rs = [''A1'', ''A2'', ''A4'']" by code_simp
  have r: "returned ?rs = [''A1'', ''A2'']" by code_simp
  have qs: "quiescent (system_init ?sb 3)" by code_simp
  have qm: "quiescent (system_init ?mb 3)" by code_simp
  have hs: "history fifo_sem_schedule (system_init ?sb 3) =
     [Invoke 0 (Put ''A1''), Invoke 1 (Put ''B1''), Invoke 2 Get,
      Append 1 ''B1'', Return 1 (PutResult True), Append 0 ''A1'', Return 0 (PutResult True),
      Invoke 1 (Put ''B2''), Return 1 (PutResult False),
      Remove 2 ''B1'', Return 2 (GetResult (Some ''B1'')),
      Invoke 2 Get, Remove 2 ''A1'', Return 2 (GetResult (Some ''A1''))]" by code_simp
  have hm: "history fifo_mon_schedule (system_init ?mb 3) =
     [Invoke 0 (Put ''A1''), Invoke 1 (Put ''B1''), Invoke 2 Get,
      Append 1 ''B1'', Return 1 (PutResult True), Append 0 ''A1'', Return 0 (PutResult True),
      Remove 2 ''B1'', Return 2 (GetResult (Some ''B1'')),
      Invoke 1 (Put ''B2''), Append 1 ''B2'', Return 1 (PutResult True),
      Invoke 1 (Put ''B3''), Return 1 (PutResult False),
      Invoke 2 Get, Remove 2 ''A1'', Return 2 (GetResult (Some ''A1''))]" by code_simp
  have es: "buf_q (sys_buffer (exec fifo_sem_schedule (system_init ?sb 3))) = []" by code_simp
  have em: "buf_q (sys_buffer (exec fifo_mon_schedule (system_init ?mb 3))) = [''B2'']"
    by code_simp
  have bs: "buf_q (sys_buffer (system_init ?sb 3)) = []" by code_simp
  have bm: "buf_q (sys_buffer (system_init ?mb 3)) = []" by code_simp
  have b0: "buf_q ?sb = []" "buf_q ?mb = []" by code_simp+
  note ts = C3_fifo[of fifo_calls ?sb ?rs ?sb' "system_init ?sb 3" fifo_sem_schedule 1]
  note tm = C3_fifo[of fifo_calls ?mb ?rs ?mb' "system_init ?mb 3" fifo_mon_schedule 2]
  from ts cs n qs have
    s1: "buf_q ?sb @ accepted fifo_calls ?rs = returned ?rs @ buf_q ?sb'" and
    s2: "buf_q (sys_buffer (system_init ?sb 3)) @ appends (history fifo_sem_schedule (system_init ?sb 3)) =
         removes (history fifo_sem_schedule (system_init ?sb 3)) @
         buf_q (sys_buffer (exec fifo_sem_schedule (system_init ?sb 3)))" and
    s3: "accounted 1 (history fifo_sem_schedule (system_init ?sb 3))"
    by blast+
  from tm cm n qm have
    m2: "buf_q (sys_buffer (system_init ?mb 3)) @ appends (history fifo_mon_schedule (system_init ?mb 3)) =
         removes (history fifo_mon_schedule (system_init ?mb 3)) @
         buf_q (sys_buffer (exec fifo_mon_schedule (system_init ?mb 3)))" and
    m3: "accounted 2 (history fifo_mon_schedule (system_init ?mb 3))"
    by blast+
  have s1': "[] @ accepted fifo_calls ?rs = returned ?rs @ [''A4'']"
    using s1 unfolding b0 by simp
  have s2': "[] @ appends (history fifo_sem_schedule (system_init ?sb 3)) =
         removes (history fifo_sem_schedule (system_init ?sb 3)) @ []"
    using s2 unfolding bs es .
  have m2': "[] @ appends (history fifo_mon_schedule (system_init ?mb 3)) =
         removes (history fifo_mon_schedule (system_init ?mb 3)) @ [''B2'']"
    using m2 unfolding bm em .
  show ?thesis
    by (intro conjI cs cm n a r s1' qs hs es s2' s3 qm hm em m2' m3)
qed

subsection \<open>The scenario with capacity 3\<close>

lemma exec_append: "exec (xs @ ys) s = exec ys (exec xs s)"
  by (induction xs arbitrary: s) simp_all

lemma exec_replicate_Suc: "exec (replicate (Suc j) a) s = act a (exec (replicate j a) s)"
proof -
  have "replicate (Suc j) a = replicate j a @ [a]" by (simp add: replicate_append_same)
  then show ?thesis by (simp only: exec_append exec.simps)
qed

lemma mon_scenario_spin:
  "exec (producer_alone j)
     \<lparr>sys_buffer = Monitor \<lparr>mon_capacity = 3, mon_q = [''A1'', ''A2'', ''A3''], mon_lock = False\<rparr>,
      sys_stop = False, sys_threads = [InMon (MP_lock ''A4''), Idle]\<rparr> \<in>
   {\<lparr>sys_buffer = Monitor \<lparr>mon_capacity = 3, mon_q = [''A1'', ''A2'', ''A3''], mon_lock = False\<rparr>,
      sys_stop = False, sys_threads = [InMon (MP_lock ''A4''), Idle]\<rparr>,
    \<lparr>sys_buffer = Monitor \<lparr>mon_capacity = 3, mon_q = [''A1'', ''A2'', ''A3''], mon_lock = True\<rparr>,
      sys_stop = False, sys_threads = [InMon (MP_while ''A4''), Idle]\<rparr>,
    \<lparr>sys_buffer = Monitor \<lparr>mon_capacity = 3, mon_q = [''A1'', ''A2'', ''A3''], mon_lock = True\<rparr>,
      sys_stop = False, sys_threads = [InMon (MP_stop ''A4''), Idle]\<rparr>,
    \<lparr>sys_buffer = Monitor \<lparr>mon_capacity = 3, mon_q = [''A1'', ''A2'', ''A3''], mon_lock = False\<rparr>,
      sys_stop = False, sys_threads = [InMon (MP_wait ''A4''), Idle]\<rparr>}"
proof (induction j)
  case 0
  show ?case by (simp add: producer_alone_def)
next
  case (Suc j)
  have "exec (producer_alone (Suc j)) s = act (Step 0) (exec (producer_alone j) s)" for s :: "string system"
    unfolding producer_alone_def by (rule exec_replicate_Suc)
  with Suc show ?case by auto
qed

lemma sem_scenario_spin:
  "exec (producer_alone j)
     \<lparr>sys_buffer = Semaphore \<lparr>sem_capacity = 3, sem_q = [''A1'', ''A2'', ''A3''], sem_empty = 0,
        sem_full = 3, sem_mutex = 1\<rparr>,
      sys_stop = False, sys_threads = [InSem (SP_while1 ''A4''), Idle]\<rparr> \<in>
   {\<lparr>sys_buffer = Semaphore \<lparr>sem_capacity = 3, sem_q = [''A1'', ''A2'', ''A3''], sem_empty = 0,
        sem_full = 3, sem_mutex = 1\<rparr>,
      sys_stop = False, sys_threads = [InSem (SP_while1 ''A4''), Idle]\<rparr>,
    \<lparr>sys_buffer = Semaphore \<lparr>sem_capacity = 3, sem_q = [''A1'', ''A2'', ''A3''], sem_empty = 0,
        sem_full = 3, sem_mutex = 1\<rparr>,
      sys_stop = False, sys_threads = [InSem (SP_empty ''A4''), Idle]\<rparr>}"
proof (induction j)
  case 0
  show ?case by (simp add: producer_alone_def)
next
  case (Suc j)
  have "exec (producer_alone (Suc j)) s = act (Step 0) (exec (producer_alone j) s)" for s :: "string system"
    unfolding producer_alone_def by (rule exec_replicate_Suc)
  with Suc show ?case by (auto simp: acquire_def)
qed

lemma mon_scenario:
  "buf_q (sys_buffer (exec three_puts (system_init (Monitor (MonitorBuffer_init 3)) 2))) = [''A1'', ''A2'', ''A3''] \<and>
   outcome_of (sys_threads (exec three_puts (system_init (Monitor (MonitorBuffer_init 3)) 2)) ! 0) = PutResult True \<and>
   buf_q (sys_buffer (exec (three_puts @ [Call 0 (Put ''A4'')] @ producer_alone j) (system_init (Monitor (MonitorBuffer_init 3)) 2))) =
     [''A1'', ''A2'', ''A3''] \<and>
   outcome_of (sys_threads (exec (three_puts @ [Call 0 (Put ''A4'')] @ producer_alone j) (system_init (Monitor (MonitorBuffer_init 3)) 2)) ! 0) =
     InFlight \<and>
   buf_q (sys_buffer (exec (three_puts @ [Call 0 (Put ''A4'')] @ producer_alone j @ one_get) (system_init (Monitor (MonitorBuffer_init 3)) 2))) =
     [''A2'', ''A3'', ''A4''] \<and>
   map outcome_of (sys_threads
       (exec (three_puts @ [Call 0 (Put ''A4'')] @ producer_alone j @ one_get) (system_init (Monitor (MonitorBuffer_init 3)) 2))) =
     [PutResult True, GetResult (Some ''A1'')]"
proof -
  have a: "exec three_puts (system_init (Monitor (MonitorBuffer_init 3)) 2) =
      \<lparr>sys_buffer = Monitor \<lparr>mon_capacity = 3, mon_q = [''A1'', ''A2'', ''A3''], mon_lock = False\<rparr>,
       sys_stop = False, sys_threads = [InMon (MP_return True), Idle]\<rparr>"
    by code_simp
  have b: "exec (three_puts @ [Call 0 (Put ''A4'')]) (system_init (Monitor (MonitorBuffer_init 3)) 2) =
      \<lparr>sys_buffer = Monitor \<lparr>mon_capacity = 3, mon_q = [''A1'', ''A2'', ''A3''], mon_lock = False\<rparr>,
      sys_stop = False, sys_threads = [InMon (MP_lock ''A4''), Idle]\<rparr>"
    by code_simp
  have g: "exec one_get s =
      \<lparr>sys_buffer = Monitor \<lparr>mon_capacity = 3, mon_q = [''A2'', ''A3'', ''A4''], mon_lock = False\<rparr>,
       sys_stop = False,
       sys_threads = [InMon (MP_return True), InMon (MC_return (Some ''A1''))]\<rparr>"
    if "s \<in> {\<lparr>sys_buffer = Monitor \<lparr>mon_capacity = 3, mon_q = [''A1'', ''A2'', ''A3''], mon_lock = False\<rparr>,
      sys_stop = False, sys_threads = [InMon (MP_lock ''A4''), Idle]\<rparr>,
    \<lparr>sys_buffer = Monitor \<lparr>mon_capacity = 3, mon_q = [''A1'', ''A2'', ''A3''], mon_lock = True\<rparr>,
      sys_stop = False, sys_threads = [InMon (MP_while ''A4''), Idle]\<rparr>,
    \<lparr>sys_buffer = Monitor \<lparr>mon_capacity = 3, mon_q = [''A1'', ''A2'', ''A3''], mon_lock = True\<rparr>,
      sys_stop = False, sys_threads = [InMon (MP_stop ''A4''), Idle]\<rparr>,
    \<lparr>sys_buffer = Monitor \<lparr>mon_capacity = 3, mon_q = [''A1'', ''A2'', ''A3''], mon_lock = False\<rparr>,
      sys_stop = False, sys_threads = [InMon (MP_wait ''A4''), Idle]\<rparr>}" for s
    using that by (elim insertE emptyE; hypsubst; code_simp)
  note sp = mon_scenario_spin[of j]
  have c: "exec (three_puts @ [Call 0 (Put ''A4'')] @ producer_alone j) (system_init (Monitor (MonitorBuffer_init 3)) 2) =
      exec (producer_alone j) (\<lparr>sys_buffer = Monitor \<lparr>mon_capacity = 3, mon_q = [''A1'', ''A2'', ''A3''], mon_lock = False\<rparr>,
      sys_stop = False, sys_threads = [InMon (MP_lock ''A4''), Idle]\<rparr>)"
    using b by (simp only: exec_append append_assoc[symmetric])
  have d: "exec (three_puts @ [Call 0 (Put ''A4'')] @ producer_alone j @ one_get) (system_init (Monitor (MonitorBuffer_init 3)) 2) =
      exec one_get (exec (producer_alone j) (\<lparr>sys_buffer = Monitor \<lparr>mon_capacity = 3, mon_q = [''A1'', ''A2'', ''A3''], mon_lock = False\<rparr>,
      sys_stop = False, sys_threads = [InMon (MP_lock ''A4''), Idle]\<rparr>))"
    using b by (simp only: exec_append append_assoc[symmetric])
  show ?thesis
    unfolding c d g[OF sp] a using sp by auto
qed

lemma sem_scenario:
  "buf_q (sys_buffer (exec three_puts (system_init (Semaphore \<lparr>sem_capacity = 3, sem_q = [], sem_empty = 3, sem_full = 0,
        sem_mutex = 1\<rparr>) 2))) = [''A1'', ''A2'', ''A3''] \<and>
   outcome_of (sys_threads (exec three_puts (system_init (Semaphore \<lparr>sem_capacity = 3, sem_q = [], sem_empty = 3, sem_full = 0,
        sem_mutex = 1\<rparr>) 2)) ! 0) = PutResult True \<and>
   buf_q (sys_buffer (exec (three_puts @ [Call 0 (Put ''A4'')] @ producer_alone j) (system_init (Semaphore \<lparr>sem_capacity = 3, sem_q = [], sem_empty = 3, sem_full = 0,
        sem_mutex = 1\<rparr>) 2))) =
     [''A1'', ''A2'', ''A3''] \<and>
   outcome_of (sys_threads (exec (three_puts @ [Call 0 (Put ''A4'')] @ producer_alone j) (system_init (Semaphore \<lparr>sem_capacity = 3, sem_q = [], sem_empty = 3, sem_full = 0,
        sem_mutex = 1\<rparr>) 2)) ! 0) =
     InFlight \<and>
   buf_q (sys_buffer (exec (three_puts @ [Call 0 (Put ''A4'')] @ producer_alone j @ one_get) (system_init (Semaphore \<lparr>sem_capacity = 3, sem_q = [], sem_empty = 3, sem_full = 0,
        sem_mutex = 1\<rparr>) 2))) =
     [''A2'', ''A3'', ''A4''] \<and>
   map outcome_of (sys_threads
       (exec (three_puts @ [Call 0 (Put ''A4'')] @ producer_alone j @ one_get) (system_init (Semaphore \<lparr>sem_capacity = 3, sem_q = [], sem_empty = 3, sem_full = 0,
        sem_mutex = 1\<rparr>) 2))) =
     [PutResult True, GetResult (Some ''A1'')]"
proof -
  have a: "exec three_puts (system_init (Semaphore \<lparr>sem_capacity = 3, sem_q = [], sem_empty = 3, sem_full = 0,
        sem_mutex = 1\<rparr>) 2) =
      \<lparr>sys_buffer = Semaphore \<lparr>sem_capacity = 3, sem_q = [''A1'', ''A2'', ''A3''], sem_empty = 0,
        sem_full = 3, sem_mutex = 1\<rparr>,
       sys_stop = False, sys_threads = [InSem (SP_return True), Idle]\<rparr>"
    by code_simp
  have b: "exec (three_puts @ [Call 0 (Put ''A4'')]) (system_init (Semaphore \<lparr>sem_capacity = 3, sem_q = [], sem_empty = 3, sem_full = 0,
        sem_mutex = 1\<rparr>) 2) =
      \<lparr>sys_buffer = Semaphore \<lparr>sem_capacity = 3, sem_q = [''A1'', ''A2'', ''A3''], sem_empty = 0,
        sem_full = 3, sem_mutex = 1\<rparr>,
      sys_stop = False, sys_threads = [InSem (SP_while1 ''A4''), Idle]\<rparr>"
    by code_simp
  have g: "exec one_get s =
      \<lparr>sys_buffer = Semaphore \<lparr>sem_capacity = 3, sem_q = [''A2'', ''A3'', ''A4''], sem_empty = 0,
        sem_full = 3, sem_mutex = 1\<rparr>,
       sys_stop = False,
       sys_threads = [InSem (SP_return True), InSem (SC_return (Some ''A1''))]\<rparr>"
    if "s \<in> {\<lparr>sys_buffer = Semaphore \<lparr>sem_capacity = 3, sem_q = [''A1'', ''A2'', ''A3''], sem_empty = 0,
        sem_full = 3, sem_mutex = 1\<rparr>,
      sys_stop = False, sys_threads = [InSem (SP_while1 ''A4''), Idle]\<rparr>,
    \<lparr>sys_buffer = Semaphore \<lparr>sem_capacity = 3, sem_q = [''A1'', ''A2'', ''A3''], sem_empty = 0,
        sem_full = 3, sem_mutex = 1\<rparr>,
      sys_stop = False, sys_threads = [InSem (SP_empty ''A4''), Idle]\<rparr>}" for s
    using that by (elim insertE emptyE; hypsubst; code_simp)
  note sp = sem_scenario_spin[of j]
  have c: "exec (three_puts @ [Call 0 (Put ''A4'')] @ producer_alone j) (system_init (Semaphore \<lparr>sem_capacity = 3, sem_q = [], sem_empty = 3, sem_full = 0,
        sem_mutex = 1\<rparr>) 2) =
      exec (producer_alone j) (\<lparr>sys_buffer = Semaphore \<lparr>sem_capacity = 3, sem_q = [''A1'', ''A2'', ''A3''], sem_empty = 0,
        sem_full = 3, sem_mutex = 1\<rparr>,
      sys_stop = False, sys_threads = [InSem (SP_while1 ''A4''), Idle]\<rparr>)"
    using b by (simp only: exec_append append_assoc[symmetric])
  have d: "exec (three_puts @ [Call 0 (Put ''A4'')] @ producer_alone j @ one_get) (system_init (Semaphore \<lparr>sem_capacity = 3, sem_q = [], sem_empty = 3, sem_full = 0,
        sem_mutex = 1\<rparr>) 2) =
      exec one_get (exec (producer_alone j) (\<lparr>sys_buffer = Semaphore \<lparr>sem_capacity = 3, sem_q = [''A1'', ''A2'', ''A3''], sem_empty = 0,
        sem_full = 3, sem_mutex = 1\<rparr>,
      sys_stop = False, sys_threads = [InSem (SP_while1 ''A4''), Idle]\<rparr>))"
    using b by (simp only: exec_append append_assoc[symmetric])
  show ?thesis
    unfolding c d g[OF sp] a using sp by auto
qed

text \<open>
  C9. For a buffer of capacity 3 of either class, a producer and a consumer, the stop
  signal unset: after the Puts of \<^verbatim>\<open>A1\<close>, \<^verbatim>\<open>A2\<close>, \<^verbatim>\<open>A3\<close> have returned
  accepted, the buffer holds \<^verbatim>\<open>A1,A2,A3\<close>; the Put of \<^verbatim>\<open>A4\<close> then blocks: however
  many steps \<open>j\<close> the producer takes while the consumer does nothing, the call has not
  returned and the buffer still holds \<^verbatim>\<open>A1,A2,A3\<close>; and when the consumer then makes
  one Get, whatever \<open>j\<close> was, the Get returns \<^verbatim>\<open>A1\<close>, the pending Put of \<^verbatim>\<open>A4\<close>
  returns accepted, and the buffer holds exactly \<^verbatim>\<open>A2,A3,A4\<close>.
\<close>

theorem C9_capacity_three_scenario:
  assumes "new_buffer mode 3 = Inr b"
  shows "buf_q (sys_buffer (exec three_puts (system_init b 2))) = [''A1'', ''A2'', ''A3''] \<and>
    outcome_of (sys_threads (exec three_puts (system_init b 2)) ! 0) = PutResult True \<and>
    buf_q (sys_buffer (exec (three_puts @ [Call 0 (Put ''A4'')] @ producer_alone j)
      (system_init b 2))) = [''A1'', ''A2'', ''A3''] \<and>
    outcome_of (sys_threads (exec (three_puts @ [Call 0 (Put ''A4'')] @ producer_alone j)
      (system_init b 2)) ! 0) = InFlight \<and>
    buf_q (sys_buffer (exec (three_puts @ [Call 0 (Put ''A4'')] @ producer_alone j @ one_get)
      (system_init b 2))) = [''A2'', ''A3'', ''A4''] \<and>
    map outcome_of (sys_threads
      (exec (three_puts @ [Call 0 (Put ''A4'')] @ producer_alone j @ one_get)
        (system_init b 2))) = [PutResult True, GetResult (Some ''A1'')]"
proof (cases "mode = ''Monitor''")
  case True
  with assms have b: "b = Monitor (MonitorBuffer_init 3)" by (simp add: new_buffer_def)
  from mon_scenario[of j] show ?thesis
    unfolding b .
next
  case False
  with assms have b: "b = Semaphore \<lparr>sem_capacity = 3, sem_q = [], sem_empty = 3, sem_full = 0,
        sem_mutex = 1\<rparr>"
    by (auto simp: new_buffer_def SemaphoreBuffer_init_def Semaphore_init_def)
  from sem_scenario[of j] show ?thesis
    unfolding b .
qed

theorem C9_witness:
  "(new_buffer ''Semaphore'' 3 :: error + string buffer) =
     Inr (Semaphore \<lparr>sem_capacity = 3, sem_q = [], sem_empty = 3, sem_full = 0, sem_mutex = 1\<rparr>) \<and>
   outcome_of (sys_threads (exec (three_puts @ [Call 0 (Put ''A4'')] @ producer_alone 5)
      (system_init (Semaphore \<lparr>sem_capacity = 3, sem_q = [], sem_empty = 3, sem_full = 0,
         sem_mutex = 1\<rparr>) 2)) ! 0) = InFlight \<and>
   buf_q (sys_buffer (exec (three_puts @ [Call 0 (Put ''A4'')] @ producer_alone 5 @ one_get)
      (system_init (Semaphore \<lparr>sem_capacity = 3, sem_q = [], sem_empty = 3, sem_full = 0,
         sem_mutex = 1\<rparr>) 2))) = [''A2'', ''A3'', ''A4'']"
proof -
  have n: "(new_buffer ''Semaphore'' 3 :: error + string buffer) =
     Inr (Semaphore \<lparr>sem_capacity = 3, sem_q = [], sem_empty = 3, sem_full = 0, sem_mutex = 1\<rparr>)"
    by (simp add: new_buffer_def SemaphoreBuffer_init_def Semaphore_init_def)
  from C9_capacity_three_scenario[OF n, of 5] n show ?thesis by blast
qed

section \<open>The counters of the session\<close>

lemma buf_step_count:
  assumes "buf_step st p b = Some (p', b')"
  shows "int (length (buf_q b')) - appended p' + removed p' =
         int (length (buf_q b)) - appended p + removed p"
proof (cases p)
  case Idle
  with assms show ?thesis by simp
next
  case (InMon q)
  with assms obtain m where b: "b = Monitor m" by (cases b) auto
  from assms InMon b show ?thesis
    by (cases q) (auto split: if_splits list.splits option.splits)
next
  case (InSem q)
  with assms obtain m where b: "b = Semaphore m" by (cases b) auto
  show ?thesis
  proof (cases q)
    case (SC_relmutex r)
    with assms InSem b show ?thesis by (cases r) auto
  next
    case (SC_relempty r)
    with assms InSem b show ?thesis by (cases r) auto
  next
    case SC_pop
    with assms InSem b show ?thesis by (cases "sem_q m") auto
  qed (use assms InSem b in \<open>auto simp: acquire_def split: if_splits\<close>)
qed

lemma outcome_put_counts:
  "outcome_of p = PutResult ok \<Longrightarrow> appended p = (if ok then 1 else 0) \<and> removed p = 0"
  by (cases p rule: outcome_of.cases) auto

lemma outcome_get_counts:
  "outcome_of p = GetResult r \<Longrightarrow>
   appended p = 0 \<and> removed p = (case r of None \<Rightarrow> 0 | Some y \<Rightarrow> 1)"
  by (cases p rule: outcome_of.cases) (auto split: option.splits)

lemma outcome_raised_counts:
  "outcome_of p = Raised e \<Longrightarrow> appended p = 0 \<and> removed p = 0"
  by (cases p rule: outcome_of.cases) auto

lemma enter_counts: "appended (produce b x) = 0 \<and> removed (produce b x) = 0 \<and>
   appended (consume b) = 0 \<and> removed (consume b) = 0"
  by (cases b) simp_all

lemma total_length_update:
  "r < length (buffers s) \<Longrightarrow>
   total_length (s\<lparr>buffers := (buffers s)[r := b']\<rparr>) =
   total_length s - int (length (buf_q (buffers s ! r))) + int (length (buf_q b'))"
  by (simp add: total_length_def weight_update)

lemma in_call_balance:
  assumes "r < length (buffers s)" and "buf_step st p (buffers s ! r) = Some (p', b')"
  shows "appended p' - removed p' - total_length (s\<lparr>buffers := (buffers s)[r := b']\<rparr>) =
         appended p - removed p - total_length s"
  using buf_step_count[OF assms(2)] total_length_update[OF assms(1), of b'] by simp

lemma worker_step_balance:
  assumes "worker_step w s = Some (w', s')" and "whole w s"
  shows "produced_count s' - consumed_count s' + pending w' - total_length s' =
         produced_count s - consumed_count s + pending w - total_length s \<and>
         threads s' = threads s"
proof (cases w)
  case (P_loop pid k)
  with assms show ?thesis by (auto simp: total_length_def)
next
  case (P_try pid k)
  with assms show ?thesis
    by (auto simp: total_length_def enter_counts split: if_splits option.splits)
next
  case (P_produce pid k r p)
  show ?thesis
  proof (cases "outcome_of p")
    case (PutResult ok)
    with assms P_produce outcome_put_counts[OF PutResult] show ?thesis
      by (auto simp: total_length_def split: if_splits)
  next
    case (GetResult x)
    with assms P_produce show ?thesis by simp
  next
    case (Raised e)
    with assms P_produce outcome_raised_counts[OF Raised] show ?thesis
      by (auto simp: total_length_def)
  next
    case InFlight
    with assms P_produce obtain p' b' where r: "r < length (buffers s)"
      and st: "buf_step (stop_event s) p (buffers s ! r) = Some (p', b')"
      and w': "w' = P_produce pid k r p'" and s': "s' = s\<lparr>buffers := (buffers s)[r := b']\<rparr>"
      by (auto split: option.splits if_splits)
    from in_call_balance[OF r st] w' s' P_produce show ?thesis by simp
  qed
next
  case (P_load pid k)
  with assms show ?thesis by (auto simp: total_length_def)
next
  case (P_store pid k v)
  with assms show ?thesis by (auto simp: total_length_def)
next
  case (P_peak pid k)
  with assms show ?thesis
    by (auto simp: total_length_def split: if_splits option.splits)
next
  case (C_loop cid)
  with assms show ?thesis by (auto simp: total_length_def)
next
  case (C_try cid)
  with assms show ?thesis
    by (auto simp: total_length_def enter_counts split: if_splits option.splits)
next
  case (C_consume cid r p)
  show ?thesis
  proof (cases "outcome_of p")
    case (PutResult ok)
    with assms C_consume show ?thesis by simp
  next
    case (GetResult x)
    with assms C_consume outcome_get_counts[OF GetResult] show ?thesis
      by (cases x) (auto simp: total_length_def)
  next
    case (Raised e)
    with assms C_consume outcome_raised_counts[OF Raised] show ?thesis
      by (auto simp: total_length_def)
  next
    case InFlight
    with assms C_consume obtain p' b' where r: "r < length (buffers s)"
      and st: "buf_step (stop_event s) p (buffers s ! r) = Some (p', b')"
      and w': "w' = C_consume cid r p'" and s': "s' = s\<lparr>buffers := (buffers s)[r := b']\<rparr>"
      by (auto split: option.splits if_splits)
    from in_call_balance[OF r st] w' s' C_consume show ?thesis by simp
  qed
next
  case (C_load cid item)
  with assms show ?thesis by (auto simp: total_length_def)
next
  case (C_store cid item v)
  with assms show ?thesis by (auto simp: total_length_def)
next
  case W_stopped
  with assms show ?thesis by simp
next
  case (W_raised e)
  with assms show ?thesis by simp
qed

lemma pending_update:
  "i < length xs \<Longrightarrow>
   sum_list (map pending (xs[i := y])) = sum_list (map pending xs) - pending (xs ! i) + pending y"
  by (rule weight_update)

lemma pending_producers: "sum_list (map (pending \<circ> (\<lambda>i. P_loop (f i) k)) xs) = 0"
  by (induction xs) simp_all

lemma pending_consumers: "sum_list (map (pending \<circ> (\<lambda>j. C_loop (f j))) xs) = 0"
  by (induction xs) simp_all

lemma new_buffer_empty: "new_buffer mode c = Inr b \<Longrightarrow> buf_q b = []"
  by (auto simp: new_buffer_def MonitorBuffer_init_def SemaphoreBuffer_init_def
        Semaphore_init_def split: if_splits sum.splits)

lemma start_balance: "balance (snd (start mode p c s)) = balance s"
proof (cases "running s")
  case True
  then show ?thesis by (simp add: start_def)
next
  case False
  show ?thesis
  proof (cases "new_buffer mode (capacity s) :: error + string buffer")
    case (Inl e)
    with False show ?thesis by (simp add: start_def balance_def total_length_def)
  next
    case (Inr b)
    from new_buffer_empty[OF Inr] False Inr show ?thesis
      by (simp add: start_def balance_def total_length_def pending_producers pending_consumers)
  qed
qed

lemma session_event_balance:
  assumes "e \<noteq> Press_reset" and "whole_at e s"
  shows "balance (session_event e s) = balance s"
proof (cases e)
  case (Tick i)
  show ?thesis
  proof (cases "i < length (threads s)")
    case True
    show ?thesis
    proof (cases "worker_step (threads s ! i) s")
      case None
      with Tick True show ?thesis by simp
    next
      case (Some r)
      obtain w' s' where r: "r = (w', s')" by (cases r)
      from assms(2) Tick True have "whole (threads s ! i) s" by simp
      from worker_step_balance[OF Some[unfolded r] this] True show ?thesis
        by (simp add: Tick Some r balance_def pending_update total_length_def)
    qed
  next
    case False
    with Tick show ?thesis by simp
  qed
next
  case (Press_start mode p c)
  then show ?thesis by (simp add: start_balance)
next
  case Press_stop
  then show ?thesis by (simp add: stop_def balance_def total_length_def)
next
  case Press_reset
  with assms show ?thesis by simp
qed

lemma session_run_balance:
  "Press_reset \<notin> set es \<Longrightarrow> updates_whole es s \<Longrightarrow> balance (session_run es s) = balance s"
proof (induction es arbitrary: s)
  case Nil
  show ?case by simp
next
  case (Cons e es)
  from Cons.prems have "balance (session_event e s) = balance s"
    by (intro session_event_balance) auto
  with Cons show ?case by simp
qed

lemma at_rest_pending: "at_rest w \<Longrightarrow> pending w = 0"
  by (cases w) simp_all

lemma quiescent_pending: "list_all at_rest ws \<Longrightarrow> sum_list (map pending ws) = 0"
  by (induction ws) (auto dest: at_rest_pending)

text \<open>The current buffer is the one made last.\<close>

lemma worker_step_model:
  "worker_step w s = Some (w', s') \<Longrightarrow>
   buffer_model s' = buffer_model s \<and> length (buffers s') = length (buffers s)"
  by (cases w) (auto split: if_splits option.splits outcome.splits)

lemma session_event_model: "model_is_last s \<Longrightarrow> model_is_last (session_event e s)"
proof (cases e)
  case (Tick i)
  assume m: "model_is_last s"
  show ?thesis
  proof (cases "i < length (threads s)")
    case True
    show ?thesis
    proof (cases "worker_step (threads s ! i) s")
      case None
      with Tick True m show ?thesis by simp
    next
      case (Some r)
      obtain w' s' where r: "r = (w', s')" by (cases r)
      from worker_step_model[OF Some[unfolded r]] m True show ?thesis
        by (auto simp: Tick Some r model_is_last_def split: option.splits)
    qed
  next
    case False
    with Tick m show ?thesis by simp
  qed
next
  case (Press_start mode p c)
  assume "model_is_last s"
  with Press_start show ?thesis
    by (auto simp: start_def model_is_last_def split: sum.splits option.splits)
next
  case Press_stop
  assume "model_is_last s"
  with Press_stop show ?thesis by (auto simp: stop_def model_is_last_def split: option.splits)
next
  case Press_reset
  assume "model_is_last s"
  with Press_reset show ?thesis
    by (auto simp: reset_all_def model_is_last_def split: option.splits)
qed

lemma session_run_model: "model_is_last s \<Longrightarrow> model_is_last (session_run es s)"
  by (induction es arbitrary: s) (simp_all add: session_event_model)

lemma one_buffer_length:
  assumes "model_is_last s" and "length (buffers s) \<le> 1"
  shows "total_length s = session_length s"
proof (cases "buffers s")
  case Nil
  with assms show ?thesis
    by (auto simp: model_is_last_def total_length_def session_length_def split: option.splits)
next
  case (Cons b bs)
  with assms(2) have "bs = []" by simp
  with Cons assms(1) show ?thesis
    by (auto simp: model_is_last_def total_length_def session_length_def split: option.splits)
qed

lemma init_balance: "balance FullSimulatorC_init = 0" "model_is_last FullSimulatorC_init"
  "session_quiescent FullSimulatorC_init"
  by (simp_all add: balance_def FullSimulatorC_init_def total_length_def model_is_last_def
        session_quiescent_def)

text \<open>
  C8 (as the code has it). Through any interleaving of worker steps and presses of Start
  and Stop, with no press of Reset and each \<^verbatim>\<open>+= 1\<close> on a counter whole, from any state
  of the session: the produced counter minus the consumed counter, plus what the workers
  have done to a queue and not yet counted, minus the number of items in all the buffers
  the session has made, does not change; so a producer adds one to the produced counter
  once for every accepted Put and a consumer adds one to the consumed counter once for
  every Get that returned an item. Hence between two quiescent points (no Put or Get in
  flight, no count pending) produced minus consumed changes as the number of items in the
  buffers does; at every quiescent point of a run from the initial state, produced minus
  consumed is the number of items in all the buffers the session has made; and that is
  the length of the current buffer as long as the session has made one buffer only, that
  is, throughout the first session. It is not the current buffer length in general:
  \<^verbatim>\<open>start\<close> makes a new empty buffer and leaves the counters, the old buffer and any
  worker that has not seen the stop signal as they are.
\<close>

theorem C8_counters_follow_buffers:
  assumes "Press_reset \<notin> set es" and "updates_whole es s" and "s' = session_run es s"
  shows "(produced_count s' - consumed_count s' + sum_list (map pending (threads s')) -
            total_length s' =
          produced_count s - consumed_count s + sum_list (map pending (threads s)) -
            total_length s) \<and>
         (session_quiescent s \<and> session_quiescent s' \<longrightarrow>
            produced_count s' - consumed_count s' - total_length s' =
            produced_count s - consumed_count s - total_length s) \<and>
         (s = FullSimulatorC_init \<and> session_quiescent s' \<longrightarrow>
            produced_count s' - consumed_count s' = total_length s' \<and>
            (length (buffers s') \<le> 1 \<longrightarrow>
               produced_count s' - consumed_count s' = session_length s'))"
proof -
  have b: "balance s' = balance s"
    unfolding assms(3) by (rule session_run_balance[OF assms(1,2)])
  have 1: "produced_count s' - consumed_count s' + sum_list (map pending (threads s')) -
            total_length s' =
          produced_count s - consumed_count s + sum_list (map pending (threads s)) -
            total_length s"
    using b by (simp add: balance_def)
  have 2: "produced_count s' - consumed_count s' - total_length s' =
            produced_count s - consumed_count s - total_length s"
    if "session_quiescent s" "session_quiescent s'"
  proof -
    from that have "sum_list (map pending (threads s)) = 0"
      "sum_list (map pending (threads s')) = 0"
      by (simp_all add: session_quiescent_def quiescent_pending)
    with 1 show ?thesis by simp
  qed
  have 3: "produced_count s' - consumed_count s' = total_length s'"
    if "s = FullSimulatorC_init" "session_quiescent s'"
  proof -
    from that(2) have "sum_list (map pending (threads s')) = 0"
      by (simp add: session_quiescent_def quiescent_pending)
    with b that(1) init_balance(1) show ?thesis by (simp add: balance_def)
  qed
  have 4: "produced_count s' - consumed_count s' = session_length s'"
    if "s = FullSimulatorC_init" "session_quiescent s'" "length (buffers s') \<le> 1"
  proof -
    from that(1) have "model_is_last s'"
      unfolding assms(3) by (simp add: session_run_model init_balance(2))
    from one_buffer_length[OF this that(3)] 3[OF that(1,2)] show ?thesis by simp
  qed
  from 1 2 3 4 show ?thesis by blast
qed

theorem C8_witness:
  "Press_reset \<notin> set session_shared \<and>
   updates_whole session_shared FullSimulatorC_init \<and>
   session_quiescent FullSimulatorC_init \<and>
   session_quiescent (session_run session_shared FullSimulatorC_init) \<and>
   length (buffers (session_run session_shared FullSimulatorC_init)) \<le> 1 \<and>
   produced_count (session_run session_shared FullSimulatorC_init) = 2 \<and>
   consumed_count (session_run session_shared FullSimulatorC_init) = 1 \<and>
   produced_count (session_run session_shared FullSimulatorC_init) -
     consumed_count (session_run session_shared FullSimulatorC_init) =
     session_length (session_run session_shared FullSimulatorC_init) \<and>
   Press_reset \<notin> set session_restarted \<and>
   updates_whole session_restarted FullSimulatorC_init \<and>
   session_quiescent (session_run session_restarted FullSimulatorC_init) \<and>
   produced_count (session_run session_restarted FullSimulatorC_init) = 2 \<and>
   consumed_count (session_run session_restarted FullSimulatorC_init) = 1 \<and>
   produced_count (session_run session_restarted FullSimulatorC_init) -
     consumed_count (session_run session_restarted FullSimulatorC_init) =
     total_length (session_run session_restarted FullSimulatorC_init)"
proof -
  define s where "s = session_run session_shared FullSimulatorC_init"
  define t where "t = session_run session_restarted FullSimulatorC_init"
  have n1: "Press_reset \<notin> set session_shared" by code_simp
  have n2: "Press_reset \<notin> set session_restarted" by code_simp
  have u1: "updates_whole session_shared FullSimulatorC_init" by code_simp
  have u2: "updates_whole session_restarted FullSimulatorC_init" by code_simp
  have q0: "session_quiescent FullSimulatorC_init" by code_simp
  have q1: "session_quiescent s" unfolding s_def by code_simp
  have q2: "session_quiescent t" unfolding t_def by code_simp
  have l1: "length (buffers s) \<le> 1" unfolding s_def by code_simp
  have p1: "produced_count s = 2" unfolding s_def by code_simp
  have c1: "consumed_count s = 1" unfolding s_def by code_simp
  have p2: "produced_count t = 2" unfolding t_def by code_simp
  have c2: "consumed_count t = 1" unfolding t_def by code_simp
  from C8_counters_follow_buffers[OF n1 u1 s_def] q1 l1
  have e1: "produced_count s - consumed_count s = session_length s" by blast
  from C8_counters_follow_buffers[OF n2 u2 t_def] q2
  have e2: "produced_count t - consumed_count t = total_length t" by blast
  show ?thesis
    unfolding s_def[symmetric] t_def[symmetric]
    by (intro conjI n1 n2 u1 u2 q0 q1 q2 l1 p1 c1 p2 c2 e1 e2)
qed

text \<open>C8 as stated fails at three quiescent points. After Start is pressed a second time:
  the new buffer is empty and produced minus consumed is 1. After Reset in the first
  session: the buffer holds one item and both counters are 0. After two producers have
  each put an item and their two \<^verbatim>\<open>+= 1\<close> have overlapped: the buffer holds two items and
  the produced counter is 1.\<close>

theorem C8_counterexample:
  "session_quiescent (session_run session_second_start FullSimulatorC_init) \<and>
   produced_count (session_run session_second_start FullSimulatorC_init) = 1 \<and>
   consumed_count (session_run session_second_start FullSimulatorC_init) = 0 \<and>
   session_length (session_run session_second_start FullSimulatorC_init) = 0 \<and>
   session_quiescent (session_run session_reset FullSimulatorC_init) \<and>
   produced_count (session_run session_reset FullSimulatorC_init) = 0 \<and>
   consumed_count (session_run session_reset FullSimulatorC_init) = 0 \<and>
   session_length (session_run session_reset FullSimulatorC_init) = 1 \<and>
   session_quiescent (session_run session_torn FullSimulatorC_init) \<and>
   produced_count (session_run session_torn FullSimulatorC_init) = 1 \<and>
   consumed_count (session_run session_torn FullSimulatorC_init) = 0 \<and>
   session_length (session_run session_torn FullSimulatorC_init) = 2"
  by code_simp

end
